theory Spec2Isabelle
  imports Main "HOL-Library.Sublist"
begin

section \<open>MediaFire batch downloader: a shallow embedding of downloader.py\<close>

text \<open>
  The program drives one browser through Selenium and talks to the operator on the
  console. The browser, the file system and the console are the environment: each call
  the program makes on them is a function of an explicit environment value and of an
  explicit driver state, and every exception such a call can raise is a value. The
  program's own control flow (the order of the calls, which exceptions are caught where,
  what is counted and recorded) is written out as the source has it.
\<close>

subsection \<open>Python strings: \<open>str.strip\<close>, \<open>str.lower\<close>, \<open>in\<close>\<close>

text \<open>
  A text is a list of characters with code points 0 to 255. \<open>isspace\<close> holds of the
  code points Python's \<open>str.isspace\<close> accepts in that range, and \<open>lower_char\<close> is
  Python's \<open>str.lower\<close> on one character of that range.
\<close>

definition isspace :: "char \<Rightarrow> bool" where
  "isspace c = (of_char c \<in> {9, 10, 11, 12, 13, 28, 29, 30, 31, 32, 133, 160 :: nat})"

definition strip :: "string \<Rightarrow> string" where
  "strip s = rev (dropWhile isspace (rev (dropWhile isspace s)))"

definition lower_char :: "char \<Rightarrow> char" where
  "lower_char c =
     (let n = (of_char c :: nat)
      in if (65 \<le> n \<and> n \<le> 90) \<or> (192 \<le> n \<and> n \<le> 222 \<and> n \<noteq> 215)
         then char_of (n + 32) else c)"

definition lower :: "string \<Rightarrow> string" where
  "lower s = map lower_char s"

text \<open>\<open>p in s\<close> on strings: \<open>p\<close> is a contiguous part of \<open>s\<close>.\<close>

fun str_in :: "string \<Rightarrow> string \<Rightarrow> bool" where
  "str_in p [] = (p = [])"
| "str_in p (c # cs) = (prefix p (c # cs) \<or> str_in p cs)"

subsection \<open>Configuration\<close>

definition DOWNLOAD_BUTTON_SELECTORS :: "string list" where
  "DOWNLOAD_BUTTON_SELECTORS =
     [''a#downloadButton'',
      ''a[id='' @ [CHR 0x27] @ ''downloadButton'' @ [CHR 0x27] @ '']'',
      ''a.download_link'',
      ''div.download_link a'',
      ''a[aria-label*='' @ [CHR 0x27] @ ''Download'' @ [CHR 0x27] @ '']'']"

definition INVALID_PAGE_TEXTS :: "string list" where
  "INVALID_PAGE_TEXTS =
     [''invalid or deleted'',
      ''file not found'',
      ''this file has been deleted'',
      ''unavailable'',
      ''error occurred'']"

subsection \<open>Reading the links\<close>

text \<open>
  \<^verbatim>\<open>links = [(i + 1, line.strip()) for i, line in enumerate(raw_lines) if line.strip()]\<close>
  where \<open>raw_lines\<close> is what \<open>readlines()\<close> returned: the lines of the file in order,
  each still carrying its line terminator.
\<close>

definition links_of :: "string list \<Rightarrow> (nat \<times> string) list" where
  "links_of raw_lines =
     map (\<lambda>(i, line). (i + 1, strip line))
       (filter (\<lambda>(i, line). strip line \<noteq> []) (enumerate 0 raw_lines))"

subsection \<open>Exceptions\<close>

text \<open>
  The classes the source tells apart. \<open>TimeoutException\<close> and
  \<open>NoSuchElementException\<close> are subclasses of \<open>WebDriverException\<close>; the
  constructor \<open>WebDriverException\<close> stands for every other member of that class.
  \<open>OtherException\<close> is an \<open>Exception\<close> outside that class (\<open>EOFError\<close>,
  \<open>OSError\<close>, a lost connection); \<open>KeyboardInterrupt\<close> is not an
  \<open>Exception\<close>. A Selenium exception carries its \<open>msg\<close> attribute and the text
  \<open>str(exc)\<close>.
\<close>

datatype exn =
    TimeoutException string string
  | NoSuchElementException string string
  | WebDriverException string string
  | OtherException string
  | KeyboardInterrupt

fun is_WebDriverException :: "exn \<Rightarrow> bool" where
  "is_WebDriverException (TimeoutException m s) = True"
| "is_WebDriverException (NoSuchElementException m s) = True"
| "is_WebDriverException (WebDriverException m s) = True"
| "is_WebDriverException (OtherException s) = False"
| "is_WebDriverException KeyboardInterrupt = False"

fun is_Exception :: "exn \<Rightarrow> bool" where
  "is_Exception KeyboardInterrupt = False"
| "is_Exception x = True"

fun exn_str :: "exn \<Rightarrow> string" where
  "exn_str (TimeoutException m s) = s"
| "exn_str (NoSuchElementException m s) = s"
| "exn_str (WebDriverException m s) = s"
| "exn_str (OtherException s) = s"
| "exn_str KeyboardInterrupt = []"

definition NoSuchWindow :: exn where
  "NoSuchWindow = WebDriverException ''no such window'' ''Message: no such window''"

subsection \<open>The browser as the program sees it\<close>

type_synonym handle = string
type_synonym element = nat

text \<open>
  What a loaded page answers: the text \<open>driver.page_source\<close> returns, the windows
  the load opened, the outcome of waiting for the first selector, what
  \<open>find_element\<close> returns for a CSS selector (the first matching element, or an
  exception), whether an element is displayed, and what a click on it does.
\<close>

record page =
  source :: "exn + string"
  popups :: "handle list"
  wait_primary :: "exn option"
  lookup :: "string \<Rightarrow> exn + element"
  displayed :: "element \<Rightarrow> exn + bool"
  click_result :: "element \<Rightarrow> exn option"
  click_popups :: "element \<Rightarrow> handle list"

datatype fs_entry = Absent | Directory | RegularFile "exn + string list"

text \<open>
  The environment of one run: the file system (a regular file holds what
  \<open>readlines()\<close> returns, or the exception that reading raises), the outcome of
  launching Chrome (the handle of its first window), what \<open>driver.get\<close> does for
  each URL, and which window operations fail.
\<close>

record env =
  fs :: "string \<Rightarrow> fs_entry"
  launch :: "exn + handle"
  web :: "string \<Rightarrow> exn + page"
  handles_err :: "exn option"
  switch_err :: "handle \<Rightarrow> exn option"
  close_err :: "handle \<Rightarrow> exn option"
  quit_err :: "exn option"

datatype call =
    Get string
  | WindowHandles
  | SwitchTo handle
  | CloseWindow handle
  | PageSource
  | WaitPresence string
  | FindElement string
  | IsDisplayed element
  | Click element
  | Sleep
  | Quit

text \<open>
  The driver's state: the open windows, the focused one, the page in the main window,
  and the calls made so far, oldest first.
\<close>

record driver =
  handles :: "handle list"
  focus :: handle
  page :: page
  calls :: "call list"

definition log_call :: "call \<Rightarrow> driver \<Rightarrow> driver" where
  "log_call c d = d\<lparr>calls := calls d @ [c]\<rparr>"

definition driver_get :: "env \<Rightarrow> string \<Rightarrow> driver \<Rightarrow> exn option \<times> driver" where
  "driver_get e url d =
     (case web e url of
        Inl x \<Rightarrow> (Some x, log_call (Get url) d)
      | Inr p \<Rightarrow> (None, (log_call (Get url) d)\<lparr>page := p, handles := handles d @ popups p\<rparr>))"

definition window_handles :: "env \<Rightarrow> driver \<Rightarrow> (exn + handle list) \<times> driver" where
  "window_handles e d =
     (case handles_err e of
        Some x \<Rightarrow> (Inl x, log_call WindowHandles d)
      | None \<Rightarrow> (Inr (handles d), log_call WindowHandles d))"

definition switch_to_window :: "env \<Rightarrow> handle \<Rightarrow> driver \<Rightarrow> exn option \<times> driver" where
  "switch_to_window e h d =
     (case switch_err e h of
        Some x \<Rightarrow> (Some x, log_call (SwitchTo h) d)
      | None \<Rightarrow>
          if h \<in> set (handles d) then (None, (log_call (SwitchTo h) d)\<lparr>focus := h\<rparr>)
          else (Some NoSuchWindow, log_call (SwitchTo h) d))"

text \<open>\<open>driver.close()\<close> closes the focused window.\<close>

definition close_window :: "env \<Rightarrow> driver \<Rightarrow> exn option \<times> driver" where
  "close_window e d =
     (case close_err e (focus d) of
        Some x \<Rightarrow> (Some x, log_call (CloseWindow (focus d)) d)
      | None \<Rightarrow>
          if focus d \<in> set (handles d)
          then (None, (log_call (CloseWindow (focus d)) d)\<lparr>handles := removeAll (focus d) (handles d)\<rparr>)
          else (Some NoSuchWindow, log_call (CloseWindow (focus d)) d))"

definition page_source :: "driver \<Rightarrow> (exn + string) \<times> driver" where
  "page_source d = (source (page d), log_call PageSource d)"

definition wait_presence :: "string \<Rightarrow> driver \<Rightarrow> exn option \<times> driver" where
  "wait_presence selector d = (wait_primary (page d), log_call (WaitPresence selector) d)"

definition find_element :: "string \<Rightarrow> driver \<Rightarrow> (exn + element) \<times> driver" where
  "find_element selector d = (lookup (page d) selector, log_call (FindElement selector) d)"

definition is_displayed :: "element \<Rightarrow> driver \<Rightarrow> (exn + bool) \<times> driver" where
  "is_displayed btn d = (displayed (page d) btn, log_call (IsDisplayed btn) d)"

definition click :: "element \<Rightarrow> driver \<Rightarrow> exn option \<times> driver" where
  "click btn d =
     (case click_result (page d) btn of
        Some x \<Rightarrow> (Some x, log_call (Click btn) d)
      | None \<Rightarrow> (None, (log_call (Click btn) d)\<lparr>handles := handles d @ click_popups (page d) btn\<rparr>))"

text \<open>\<open>time.sleep(1.5)\<close> is recorded among the calls; it changes nothing and raises nothing.\<close>

definition sleep :: "driver \<Rightarrow> driver" where
  "sleep d = log_call Sleep d"

definition driver_quit :: "env \<Rightarrow> driver \<Rightarrow> exn option \<times> driver" where
  "driver_quit e d =
     (case quit_err e of
        Some x \<Rightarrow> (Some x, log_call Quit d)
      | None \<Rightarrow> (None, (log_call Quit d)\<lparr>handles := []\<rparr>))"

subsection \<open>\<open>close_popup_tabs\<close>\<close>

text \<open>
  The body of \<open>for handle in list(driver.window_handles)\<close>, over the snapshot of the
  handles: \<open>switch_to.window\<close> and \<open>close\<close> stand in one \<open>try\<close> whose handler
  catches \<open>WebDriverException\<close> only.
\<close>

fun close_each :: "env \<Rightarrow> handle \<Rightarrow> handle list \<Rightarrow> driver \<Rightarrow> exn option \<times> driver" where
  "close_each e keep_handle [] d = (None, d)"
| "close_each e keep_handle (h # hs) d =
     (if h \<noteq> keep_handle then
        (case switch_to_window e h d of
           (Some x, d1) \<Rightarrow>
             if is_WebDriverException x then close_each e keep_handle hs d1 else (Some x, d1)
         | (None, d1) \<Rightarrow>
             (case close_window e d1 of
                (Some x, d2) \<Rightarrow>
                  if is_WebDriverException x then close_each e keep_handle hs d2 else (Some x, d2)
              | (None, d2) \<Rightarrow> close_each e keep_handle hs d2))
      else close_each e keep_handle hs d)"

definition close_popup_tabs :: "env \<Rightarrow> handle \<Rightarrow> driver \<Rightarrow> exn option \<times> driver" where
  "close_popup_tabs e keep_handle d =
     (case window_handles e d of
        (Inl x, d1) \<Rightarrow> (Some x, d1)
      | (Inr hs, d1) \<Rightarrow>
          (case close_each e keep_handle hs d1 of
             (Some x, d2) \<Rightarrow> (Some x, d2)
           | (None, d2) \<Rightarrow>
               (case switch_to_window e keep_handle d2 of
                  (Some x, d3) \<Rightarrow> if is_WebDriverException x then (None, d3) else (Some x, d3)
                | (None, d3) \<Rightarrow> (None, d3))))"

subsection \<open>\<open>is_page_invalid\<close> and \<open>find_download_button\<close>\<close>

text \<open>
  \<^verbatim>\<open>any(p in driver.page_source.lower() for p in INVALID_PAGE_TEXTS)\<close>: the generator
  reads \<open>page_source\<close> once for each phrase it tests and stops at the first hit.
\<close>

fun any_phrase :: "string list \<Rightarrow> driver \<Rightarrow> (exn + bool) \<times> driver" where
  "any_phrase [] d = (Inr False, d)"
| "any_phrase (p # ps) d =
     (case page_source d of
        (Inl x, d1) \<Rightarrow> (Inl x, d1)
      | (Inr src, d1) \<Rightarrow> if str_in p (lower src) then (Inr True, d1) else any_phrase ps d1)"

definition is_page_invalid :: "driver \<Rightarrow> (exn + bool) \<times> driver" where
  "is_page_invalid d = any_phrase INVALID_PAGE_TEXTS d"

fun is_NoSuchElementException :: "exn \<Rightarrow> bool" where
  "is_NoSuchElementException (NoSuchElementException m s) = True"
| "is_NoSuchElementException x = False"

fun try_selectors :: "string list \<Rightarrow> driver \<Rightarrow> (exn + element option) \<times> driver" where
  "try_selectors [] d = (Inr None, d)"
| "try_selectors (selector # rest) d =
     (case find_element selector d of
        (Inl x, d1) \<Rightarrow>
          if is_NoSuchElementException x then try_selectors rest d1 else (Inl x, d1)
      | (Inr btn, d1) \<Rightarrow>
          (case is_displayed btn d1 of
             (Inl x, d2) \<Rightarrow>
               if is_NoSuchElementException x then try_selectors rest d2 else (Inl x, d2)
           | (Inr True, d2) \<Rightarrow> (Inr (Some btn), d2)
           | (Inr False, d2) \<Rightarrow> try_selectors rest d2))"

definition find_download_button :: "driver \<Rightarrow> (exn + element option) \<times> driver" where
  "find_download_button d = try_selectors DOWNLOAD_BUTTON_SELECTORS d"

subsection \<open>\<open>process_link\<close>\<close>

text \<open>\<open>except TimeoutException: pass\<close> around a call: a timeout is dropped, anything else is raised.\<close>

fun pass_TimeoutException :: "exn option \<times> driver \<Rightarrow> exn option \<times> driver" where
  "pass_TimeoutException (Some (TimeoutException m s), d) = (None, d)"
| "pass_TimeoutException (r, d) = (r, d)"

definition process_link ::
  "env \<Rightarrow> string \<Rightarrow> handle \<Rightarrow> driver \<Rightarrow> (exn + bool \<times> string) \<times> driver" where
  "process_link e url main_handle d =
     (case driver_get e url d of
        (Some x, d1) \<Rightarrow>
          (case x of
             TimeoutException m s \<Rightarrow> (Inr (False, ''Page load timed out''), d1)
           | NoSuchElementException m s \<Rightarrow> (Inr (False, ''WebDriver error: '' @ m), d1)
           | WebDriverException m s \<Rightarrow> (Inr (False, ''WebDriver error: '' @ m), d1)
           | OtherException s \<Rightarrow> (Inl x, d1)
           | KeyboardInterrupt \<Rightarrow> (Inl x, d1))
      | (None, d1) \<Rightarrow>
     (case close_popup_tabs e main_handle d1 of
        (Some x, d2) \<Rightarrow> (Inl x, d2)
      | (None, d2) \<Rightarrow>
     (case is_page_invalid d2 of
        (Inl x, d3) \<Rightarrow> (Inl x, d3)
      | (Inr True, d3) \<Rightarrow> (Inr (False, ''MediaFire reports file as invalid or deleted''), d3)
      | (Inr False, d3) \<Rightarrow>
     (case pass_TimeoutException (wait_presence (DOWNLOAD_BUTTON_SELECTORS ! 0) d3) of
        (Some x, d4) \<Rightarrow> (Inl x, d4)
      | (None, d4) \<Rightarrow>
     (case find_download_button d4 of
        (Inl x, d5) \<Rightarrow> (Inl x, d5)
      | (Inr None, d5) \<Rightarrow> (Inr (False, ''Download button not found on page''), d5)
      | (Inr (Some btn), d5) \<Rightarrow>
     (case click btn d5 of
        (Some x, d6) \<Rightarrow>
          if is_Exception x
          then (Inr (False, ''Could not click download button: '' @ exn_str x), d6)
          else (Inl x, d6)
      | (None, d6) \<Rightarrow>
     (case close_popup_tabs e main_handle (sleep d6) of
        (Some x, d8) \<Rightarrow> (Inl x, d8)
      | (None, d8) \<Rightarrow> (Inr (True, ''OK''), d8))))))))"

subsection \<open>The console\<close>

text \<open>
  What the operator does at each \<open>input()\<close>: types a line (given without its newline)
  or presses Ctrl-C. When the events are used up, standard input is at its end and
  \<open>input()\<close> raises \<open>EOFError\<close>. The messages the program writes are recorded by
  kind.
\<close>

datatype con_event = Typed string | CtrlC

datatype msg =
    PromptPath
  | ErrorFileNotFound string
  | WarnNoLinks
  | InfoLink nat nat nat string
  | PromptSaved
  | WarnFailed string
  | PromptContinue
  | WarnInterrupted
  | PromptFinish
  | StillWaiting
  | PleaseType
  | InfoBrowserClosed

record console =
  stdin :: "con_event list"
  stdout :: "msg list"

definition EOFError :: exn where
  "EOFError = OtherException ''EOF when reading a line''"

definition emit :: "msg \<Rightarrow> console \<Rightarrow> console" where
  "emit m c = c\<lparr>stdout := stdout c @ [m]\<rparr>"

definition input :: "msg \<Rightarrow> console \<Rightarrow> (exn + string) \<times> console" where
  "input prompt c =
     (case stdin c of
        [] \<Rightarrow> (Inl EOFError, emit prompt c)
      | CtrlC # rest \<Rightarrow> (Inl KeyboardInterrupt, (emit prompt c)\<lparr>stdin := rest\<rparr>)
      | Typed line # rest \<Rightarrow> (Inr line, (emit prompt c)\<lparr>stdin := rest\<rparr>))"

subsection \<open>\<open>main\<close>: the per-link loop\<close>

record session =
  drv :: driver
  con :: console
  idx :: nat
  success_count :: nat
  failed_links :: "(nat \<times> string \<times> string) list"

text \<open>
  \<^verbatim>\<open>for idx, (line_no, url) in enumerate(links, start=1)\<close>. The result is the exception
  that left the loop, if any, and the state at that moment.
\<close>

fun link_loop ::
  "env \<Rightarrow> handle \<Rightarrow> nat \<Rightarrow> (nat \<times> nat \<times> string) list \<Rightarrow> session \<Rightarrow> exn option \<times> session" where
  "link_loop e main_handle n [] s = (None, s)"
| "link_loop e main_handle n ((i, line_no, url) # rest) s =
     (let s1 = s\<lparr>idx := i, con := emit (InfoLink i n line_no url) (con s)\<rparr>
      in case process_link e url main_handle (drv s1) of
           (Inl x, d) \<Rightarrow> (Some x, s1\<lparr>drv := d\<rparr>)
         | (Inr (success, reason), d) \<Rightarrow>
             if success then
               (let s2 = s1\<lparr>drv := d, success_count := success_count s1 + 1\<rparr>
                in case input PromptSaved (con s2) of
                     (Inl x, c) \<Rightarrow> (Some x, s2\<lparr>con := c\<rparr>)
                   | (Inr line, c) \<Rightarrow> link_loop e main_handle n rest (s2\<lparr>con := c\<rparr>))
             else
               (let s2 = s1\<lparr>drv := d,
                           con := emit (WarnFailed reason) (con s1),
                           failed_links := failed_links s1 @ [(line_no, url, reason)]\<rparr>
                in case input PromptContinue (con s2) of
                     (Inl x, c) \<Rightarrow> (Some x, s2\<lparr>con := c\<rparr>)
                   | (Inr line, c) \<Rightarrow> link_loop e main_handle n rest (s2\<lparr>con := c\<rparr>)))"

definition run_links ::
  "env \<Rightarrow> handle \<Rightarrow> (nat \<times> string) list \<Rightarrow> session \<Rightarrow> exn option \<times> session" where
  "run_links e main_handle links s =
     link_loop e main_handle (length links) (enumerate 1 links) s"

subsection \<open>\<open>main\<close>: the shutdown prompt\<close>

text \<open>
  \<^verbatim>\<open>while True: answer = input(...).strip().lower()\<close>. Each round consumes one console
  event, so the loop is a recursion over the events still to come; an exception raised
  by \<open>input()\<close> leaves the loop and \<open>main\<close>.
\<close>

fun shutdown_prompt :: "con_event list \<Rightarrow> msg list \<Rightarrow> exn option \<times> console" where
  "shutdown_prompt [] out = (Some EOFError, \<lparr>stdin = [], stdout = out @ [PromptFinish]\<rparr>)"
| "shutdown_prompt (CtrlC # rest) out =
     (Some KeyboardInterrupt, \<lparr>stdin = rest, stdout = out @ [PromptFinish]\<rparr>)"
| "shutdown_prompt (Typed line # rest) out =
     (let answer = lower (strip line)
      in if answer = ''y'' then (None, \<lparr>stdin = rest, stdout = out @ [PromptFinish]\<rparr>)
         else if answer = ''n'' \<or> answer = [] then
           shutdown_prompt rest (out @ [PromptFinish, StillWaiting])
         else shutdown_prompt rest (out @ [PromptFinish, PleaseType]))"

subsection \<open>\<open>main\<close>\<close>

text \<open>
  How the process ends: \<open>sys.exit(n)\<close>, the end of \<open>main\<close>, or an exception nobody
  caught. The interpreter's exit status is 0 at the end of \<open>main\<close> and not 0 for an
  uncaught exception (1, or the status of a process killed by an interrupt).
\<close>

datatype ending = Exited nat | Returned | Uncaught exn

fun exit_code :: "ending \<Rightarrow> nat" where
  "exit_code (Exited n) = n"
| "exit_code Returned = 0"
| "exit_code (Uncaught x) = (if x = KeyboardInterrupt then 130 else 1)"

record report =
  links_file :: string
  total :: nat
  processed :: nat
  successful :: nat
  failed_count :: nat
  failures :: "(nat \<times> string \<times> string) list"

record outcome =
  ending :: ending
  browser :: "driver option"
  terminal :: console
  summary :: "report option"

definition blank_page :: page where
  "blank_page =
     \<lparr>source = Inr ''<html><head></head><body></body></html>'',
      popups = [],
      wait_primary = Some (TimeoutException [] []),
      lookup = (\<lambda>selector. Inl (NoSuchElementException [] [])),
      displayed = (\<lambda>btn. Inr False),
      click_result = (\<lambda>btn. None),
      click_popups = (\<lambda>btn. [])\<rparr>"

text \<open>
  From the shutdown prompt to the summary; \<open>s\<close> is the state the loop left. The
  summary is the record of the numbers and failures it prints; printing it and appending
  it to the log file are taken to succeed.
\<close>

definition finish :: "env \<Rightarrow> string \<Rightarrow> nat \<Rightarrow> session \<Rightarrow> outcome" where
  "finish e path n s =
     (case shutdown_prompt (stdin (con s)) (stdout (con s)) of
        (Some x, c) \<Rightarrow>
          \<lparr>ending = Uncaught x, browser = Some (drv s), terminal = c, summary = None\<rparr>
      | (None, c) \<Rightarrow>
          (case driver_quit e (drv s) of
             (Some x, d) \<Rightarrow>
               \<lparr>ending = Uncaught x, browser = Some d, terminal = c, summary = None\<rparr>
           | (None, d) \<Rightarrow>
               \<lparr>ending = Returned, browser = Some d, terminal = emit InfoBrowserClosed c,
                summary = Some
                  \<lparr>links_file = path, total = n,
                   processed = success_count s + length (failed_links s),
                   successful = success_count s,
                   failed_count = length (failed_links s),
                   failures = failed_links s\<rparr>\<rparr>))"

text \<open>
  \<open>main\<close>, given the parsed positional argument (\<open>None\<close> when it is absent) and the
  console events to come. The \<open>--timeout\<close> option sets how long the driver waits
  for a page and for the first selector; what the driver then answers is part of the
  environment.
\<close>

definition main :: "env \<Rightarrow> string option \<Rightarrow> con_event list \<Rightarrow> outcome" where
  "main e arg events =
     (let c0 = \<lparr>stdin = events, stdout = []\<rparr>
      in case (if arg = None \<or> arg = Some []
               then (case input PromptPath c0 of
                       (Inl x, c) \<Rightarrow> (Inl x, c)
                     | (Inr line, c) \<Rightarrow> (Inr (strip line), c))
               else (Inr (the arg), c0)) of
           (Inl x, c1) \<Rightarrow>
             \<lparr>ending = Uncaught x, browser = None, terminal = c1, summary = None\<rparr>
         | (Inr path, c1) \<Rightarrow>
     (case fs e path of
        Absent \<Rightarrow>
          \<lparr>ending = Exited 1, browser = None,
           terminal = emit (ErrorFileNotFound path) c1, summary = None\<rparr>
      | Directory \<Rightarrow>
          \<lparr>ending = Exited 1, browser = None,
           terminal = emit (ErrorFileNotFound path) c1, summary = None\<rparr>
      | RegularFile (Inl x) \<Rightarrow>
          \<lparr>ending = Uncaught x, browser = None, terminal = c1, summary = None\<rparr>
      | RegularFile (Inr raw_lines) \<Rightarrow>
     (let links = links_of raw_lines
      in if length links = 0
         then \<lparr>ending = Exited 0, browser = None,
               terminal = emit WarnNoLinks c1, summary = None\<rparr>
         else
     (case launch e of
        Inl x \<Rightarrow>
          \<lparr>ending = Uncaught x, browser = None, terminal = c1, summary = None\<rparr>
      | Inr main_handle \<Rightarrow>
     (let d0 = \<lparr>handles = [main_handle], focus = main_handle, page = blank_page, calls = []\<rparr>;
          s0 = \<lparr>drv = d0, con = c1, idx = 0, success_count = 0, failed_links = []\<rparr>
      in case run_links e main_handle links s0 of
           (None, s) \<Rightarrow> finish e path (length links) s
         | (Some x, s) \<Rightarrow>
             if x = KeyboardInterrupt
             then finish e path (length links) (s\<lparr>con := emit WarnInterrupted (con s)\<rparr>)
             else \<lparr>ending = Uncaught x, browser = Some (drv s),
                   terminal = con s, summary = None\<rparr>)))))"

subsection \<open>Vocabulary for the statements\<close>

text \<open>The calls a driver state \<open>d'\<close> has beyond an earlier state \<open>d\<close>.\<close>

definition new_calls :: "driver \<Rightarrow> driver \<Rightarrow> call list" where
  "new_calls d d' = drop (length (calls d)) (calls d')"

text \<open>\<open>d'\<close> continues \<open>d\<close>: its log is that of \<open>d\<close> followed by calls that satisfy \<open>P\<close>.\<close>

definition extends :: "(call \<Rightarrow> bool) \<Rightarrow> driver \<Rightarrow> driver \<Rightarrow> bool" where
  "extends P d d' = (\<exists>cs. calls d' = calls d @ cs \<and> list_all P cs)"

text \<open>The calls of the control search and the click.\<close>

fun control_call :: "call \<Rightarrow> bool" where
  "control_call (WaitPresence selector) = True"
| "control_call (FindElement selector) = True"
| "control_call (IsDisplayed btn) = True"
| "control_call (Click btn) = True"
| "control_call c = False"

fun click_call :: "call \<Rightarrow> bool" where
  "click_call (Click btn) = True"
| "click_call c = False"

text \<open>The calls \<open>close_popup_tabs\<close> may make when told to keep \<open>keep_handle\<close>.\<close>

fun reap_call :: "handle \<Rightarrow> call \<Rightarrow> bool" where
  "reap_call keep_handle WindowHandles = True"
| "reap_call keep_handle (SwitchTo h) = True"
| "reap_call keep_handle (CloseWindow h) = (h \<noteq> keep_handle)"
| "reap_call keep_handle c = False"

text \<open>
  What one selector comes to on a page: a displayed element, nothing (no element, or the
  first match is hidden), or an exception that \<open>find_download_button\<close> does not catch.
\<close>

datatype probe = Visible element | Miss | Raised exn

definition probe :: "page \<Rightarrow> string \<Rightarrow> probe" where
  "probe p selector =
     (case lookup p selector of
        Inl x \<Rightarrow> if is_NoSuchElementException x then Miss else Raised x
      | Inr btn \<Rightarrow>
          (case displayed p btn of
             Inl x \<Rightarrow> if is_NoSuchElementException x then Miss else Raised x
           | Inr True \<Rightarrow> Visible btn
           | Inr False \<Rightarrow> Miss))"

fun is_Visible :: "probe \<Rightarrow> bool" where
  "is_Visible (Visible btn) = True"
| "is_Visible Miss = False"
| "is_Visible (Raised x) = False"

text \<open>
  A phrase occurs in a text without regard to case: some contiguous part of the text
  equals the phrase once both are lowered.
\<close>

definition occurs_ci :: "string \<Rightarrow> string \<Rightarrow> bool" where
  "occurs_ci phrase text =
     (\<exists>pre mid post. text = pre @ mid @ post \<and> lower mid = lower phrase)"

text \<open>The answers that end the shutdown prompt.\<close>

definition affirmative :: "string \<Rightarrow> bool" where
  "affirmative line = (lower (strip line) = ''y'')"

text \<open>
  The windows \<open>close_popup_tabs\<close> leaves open: the one to keep, and those the driver
  fails to switch to or to close.
\<close>

definition stays :: "env \<Rightarrow> handle \<Rightarrow> handle \<Rightarrow> bool" where
  "stays e keep h = (h = keep \<or> switch_err e h \<noteq> None \<or> close_err e h \<noteq> None)"


text \<open>
  The first selector of a list that does not come to nothing on a page decides: its
  displayed element is the result, or its exception is raised.
\<close>

fun first_probe :: "page \<Rightarrow> string list \<Rightarrow> exn + element option" where
  "first_probe p [] = Inr None"
| "first_probe p (selector # rest) =
     (case probe p selector of
        Visible btn \<Rightarrow> Inr (Some btn)
      | Raised x \<Rightarrow> Inl x
      | Miss \<Rightarrow> first_probe p rest)"

text \<open>The calls \<open>process_link\<close> may make for \<open>url\<close> when \<open>main_handle\<close> is the main window.\<close>

fun link_call :: "string \<Rightarrow> handle \<Rightarrow> call \<Rightarrow> bool" where
  "link_call url main_handle (Get u) = (u = url)"
| "link_call url main_handle (CloseWindow h) = (h \<noteq> main_handle)"
| "link_call url main_handle Quit = False"
| "link_call url main_handle c = True"

text \<open>The Outcome Records a session holds: the successes counted and the failures listed.\<close>

definition outcome_count :: "session \<Rightarrow> nat" where
  "outcome_count s = success_count s + length (failed_links s)"

text \<open>The calls the per-link loop may make for links with the given URLs.\<close>

fun loop_call :: "string set \<Rightarrow> handle \<Rightarrow> call \<Rightarrow> bool" where
  "loop_call urls main_handle (Get u) = (u \<in> urls)"
| "loop_call urls main_handle (CloseWindow h) = (h \<noteq> main_handle)"
| "loop_call urls main_handle Quit = False"
| "loop_call urls main_handle c = True"

text \<open>The line number and the URL of a failure record.\<close>

fun failure_link :: "nat \<times> string \<times> string \<Rightarrow> nat \<times> string" where
  "failure_link (line_no, url, reason) = (line_no, url)"

text \<open>The last thing written is a prompt that waits for the operator to acknowledge a link.\<close>

definition at_prompt :: "msg list \<Rightarrow> bool" where
  "at_prompt out = (out \<noteq> [] \<and> (last out = PromptSaved \<or> last out = PromptContinue))"

text \<open>The path \<open>main\<close> reads the links from: the argument, or the stripped answer to the prompt.\<close>

definition links_file_of :: "string option \<Rightarrow> con_event list \<Rightarrow> string option" where
  "links_file_of arg events =
     (if arg = None \<or> arg = Some []
      then (case events of Typed line # rest \<Rightarrow> Some (strip line) | _ \<Rightarrow> None)
      else arg)"

subsection \<open>Example runs\<close>

text \<open>A page with a displayed download button found by the third selector only; its load opens three advertising windows.\<close>

definition ex_button_page :: page where
  "ex_button_page =
     \<lparr>source = Inr ''<html><a class=download_link>Download (1.2MB)</a></html>'',
      popups = [''ad1'', ''ad2'', ''ad3''],
      wait_primary = Some (TimeoutException ''timeout'' ''Message: timeout''),
      lookup = (\<lambda>selector.
         if selector = ''a.download_link'' then Inr 7
         else if selector = ''a#downloadButton'' then Inr 3
         else Inl (NoSuchElementException ''no such element'' ''Message: no such element'')),
      displayed = (\<lambda>btn. Inr (btn = 7)),
      click_result = (\<lambda>btn. None),
      click_popups = (\<lambda>btn. [''ad4''])\<rparr>"

text \<open>A page that reports a deleted file, and still carries a download button.\<close>

definition ex_deleted_page :: page where
  "ex_deleted_page =
     ex_button_page\<lparr>source := Inr ''<html><p>File Not Found.</p></html>'', popups := []\<rparr>"

text \<open>A page on which no selector finds anything.\<close>

definition ex_bare_page :: page where
  "ex_bare_page =
     ex_button_page
       \<lparr>source := Inr ''<html><p>Welcome</p></html>'', popups := [],
        lookup := (\<lambda>selector.
          Inl (NoSuchElementException ''no such element'' ''Message: no such element''))\<rparr>"

text \<open>
  A page whose first selector finds an element that has gone stale when its visibility
  is asked for; no other selector finds anything.
\<close>

definition ex_stale_page :: page where
  "ex_stale_page =
     ex_bare_page
       \<lparr>lookup := (\<lambda>selector.
          if selector = ''a#downloadButton'' then Inr 3
          else Inl (NoSuchElementException ''no such element'' ''Message: no such element'')),
        displayed := (\<lambda>btn.
          Inl (WebDriverException ''stale element reference''
                 ''Message: stale element reference''))\<rparr>"

definition ex_lines :: "string list" where
  "ex_lines =
     [''https://mf.example/ok'' @ [CHR 0x0A],
      [CHR 0x0A],
      ''  https://mf.example/gone  '' @ [CHR 0x0A],
      [CHR 0x09, CHR 0x20, CHR 0x0A],
      ''https://mf.example/bare'']"

text \<open>
  An environment: \<open>links.txt\<close> holds \<open>ex_lines\<close>, \<open>blank.txt\<close> holds blank lines
  only, \<open>downloads\<close> is a directory; the driver cannot switch to \<open>ad3\<close> and cannot
  close \<open>ad2\<close>.
\<close>

definition ex_env :: env where
  "ex_env =
     \<lparr>fs = (\<lambda>path.
         if path = ''links.txt'' then RegularFile (Inr ex_lines)
         else if path = ''blank.txt'' then RegularFile (Inr [[CHR 0x0A], [CHR 0x20, CHR 0x0A]])
         else if path = ''downloads'' then Directory
         else Absent),
      launch = Inr ''main'',
      web = (\<lambda>url.
         if url = ''https://mf.example/ok'' then Inr ex_button_page
         else if url = ''https://mf.example/gone'' then Inr ex_deleted_page
         else if url = ''https://mf.example/bare'' then Inr ex_bare_page
         else if url = ''https://mf.example/stale'' then Inr ex_stale_page
         else Inl (TimeoutException ''timeout'' ''Message: timeout'')),
      handles_err = None,
      switch_err = (\<lambda>h.
         if h = ''ad3'' then Some (TimeoutException ''timeout'' ''Message: timeout'') else None),
      close_err = (\<lambda>h.
         if h = ''ad2'' then Some (WebDriverException ''target closed'' ''Message: target closed'')
         else None),
      quit_err = None\<rparr>"

text \<open>The driver right after launch, and with three advertising windows open.\<close>

definition ex_driver :: driver where
  "ex_driver = \<lparr>handles = [''main''], focus = ''main'', page = blank_page, calls = []\<rparr>"

definition ex_popups :: driver where
  "ex_popups = ex_driver\<lparr>handles := [''main'', ''ad1'', ''ad2'', ''ad3''], focus := ''ad3''\<rparr>"

definition ex_session :: "con_event list \<Rightarrow> session" where
  "ex_session events =
     \<lparr>drv = ex_driver, con = \<lparr>stdin = events, stdout = []\<rparr>, idx = 0,
      success_count = 0, failed_links = []\<rparr>"

text \<open>The operator interrupts while the driver closes \<open>ad1\<close>; the browser is gone when the handles are listed; Chrome does not start.\<close>

definition ex_env_interrupt :: env where
  "ex_env_interrupt =
     ex_env\<lparr>close_err := (\<lambda>h. if h = ''ad1'' then Some KeyboardInterrupt else None)\<rparr>"

definition ex_env_gone :: env where
  "ex_env_gone =
     ex_env\<lparr>handles_err := Some (WebDriverException ''invalid session id'' ''Message: invalid session id'')\<rparr>"

definition ex_env_no_chrome :: env where
  "ex_env_no_chrome =
     ex_env\<lparr>launch := Inl (WebDriverException ''cannot find Chrome binary'' ''Message: cannot find Chrome binary'')\<rparr>"


section \<open>Auxiliary lemmas\<close>

lemma str_in_iff: "str_in p s \<longleftrightarrow> (\<exists>pre post. s = pre @ p @ post)"
proof (induction s)
  case Nil
  then show ?case by auto
next
  case (Cons c cs)
  show ?case
  proof
    assume "str_in p (c # cs)"
    then consider "prefix p (c # cs)" | "str_in p cs" by auto
    then show "\<exists>pre post. c # cs = pre @ p @ post"
    proof cases
      case 1
      then obtain post where "c # cs = p @ post" by (auto simp: prefix_def)
      then have "c # cs = [] @ p @ post" by simp
      then show ?thesis by blast
    next
      case 2
      with Cons obtain pre post where "cs = pre @ p @ post" by blast
      then have "c # cs = (c # pre) @ p @ post" by simp
      then show ?thesis by blast
    qed
  next
    assume "\<exists>pre post. c # cs = pre @ p @ post"
    then obtain pre post where eq: "c # cs = pre @ p @ post" by blast
    show "str_in p (c # cs)"
    proof (cases pre)
      case Nil
      with eq have "prefix p (c # cs)" by (simp add: prefix_def)
      then show ?thesis by simp
    next
      case (Cons a pre')
      with eq have "cs = pre' @ p @ post" by simp
      with Cons.IH have "str_in p cs" by blast
      then show ?thesis by simp
    qed
  qed
qed

lemma strip_decomp:
  "\<exists>pre post. s = pre @ strip s @ post \<and> (\<forall>c\<in>set pre. isspace c) \<and> (\<forall>c\<in>set post. isspace c)"
proof -
  let ?t = "dropWhile isspace s"
  have 1: "s = takeWhile isspace s @ ?t" by simp
  have "rev (takeWhile isspace (rev ?t) @ dropWhile isspace (rev ?t)) = rev (rev ?t)"
    by (simp only: takeWhile_dropWhile_id)
  then have 2: "strip s @ rev (takeWhile isspace (rev ?t)) = ?t"
    by (simp only: rev_append rev_rev_ident strip_def)
  have 3: "\<forall>c\<in>set (takeWhile isspace s). isspace c"
    by (auto dest: set_takeWhileD)
  have 4: "\<forall>c\<in>set (rev (takeWhile isspace (rev ?t))). isspace c"
    by (auto dest: set_takeWhileD)
  from 1 2 have "s = takeWhile isspace s @ strip s @ rev (takeWhile isspace (rev ?t))"
    by simp
  with 3 4 show ?thesis by blast
qed

lemma dropWhile_all_iff: "(\<forall>x\<in>set (dropWhile P xs). P x) \<longleftrightarrow> (\<forall>x\<in>set xs. P x)"
  by (induction xs) auto

lemma strip_empty_iff: "strip s = [] \<longleftrightarrow> (\<forall>c\<in>set s. isspace c)"
  by (simp add: strip_def dropWhile_eq_Nil_conv dropWhile_all_iff)

lemma last_dropWhile_nonempty: "dropWhile P xs \<noteq> [] \<Longrightarrow> last (dropWhile P xs) = last xs"
  by (induction xs) (auto split: if_splits)

lemma strip_ends:
  assumes "strip s \<noteq> []"
  shows "\<not> isspace (hd (strip s))" and "\<not> isspace (last (strip s))"
proof -
  let ?t = "dropWhile isspace s"
  let ?u = "dropWhile isspace (rev ?t)"
  from assms have u: "?u \<noteq> []" by (simp add: strip_def)
  have t: "?t \<noteq> []"
  proof
    assume "?t = []"
    then have "?u = []" by (simp only: rev.simps dropWhile.simps)
    with u show False by contradiction
  qed
  have "hd (strip s) = last ?u" using u by (simp add: strip_def hd_rev)
  also have "\<dots> = last (rev ?t)" using u by (rule last_dropWhile_nonempty)
  also have "\<dots> = hd ?t" using t by (simp add: last_rev)
  finally have "hd (strip s) = hd ?t" .
  moreover have "\<not> isspace (hd ?t)" using t by (rule hd_dropWhile)
  ultimately show "\<not> isspace (hd (strip s))" by simp
  have "last (strip s) = hd ?u" using u by (simp add: strip_def last_rev)
  moreover have "\<not> isspace (hd ?u)" using u by (rule hd_dropWhile)
  ultimately show "\<not> isspace (last (strip s))" by simp
qed

lemma in_set_enumerate_iff:
  "(i, x) \<in> set (enumerate n xs) \<longleftrightarrow> n \<le> i \<and> i < n + length xs \<and> x = xs ! (i - n)"
  by (auto simp: in_set_enumerate_eq)

lemma links_of_iff:
  "(n, u) \<in> set (links_of raw) \<longleftrightarrow>
     1 \<le> n \<and> n \<le> length raw \<and> u = strip (raw ! (n - 1)) \<and> u \<noteq> []"
proof
  assume "(n, u) \<in> set (links_of raw)"
  then obtain i line where "(i, line) \<in> set (enumerate 0 raw)" "strip line \<noteq> []"
    "n = i + 1" "u = strip line"
    by (auto simp: links_of_def)
  then show "1 \<le> n \<and> n \<le> length raw \<and> u = strip (raw ! (n - 1)) \<and> u \<noteq> []"
    by (auto simp: in_set_enumerate_iff)
next
  assume a: "1 \<le> n \<and> n \<le> length raw \<and> u = strip (raw ! (n - 1)) \<and> u \<noteq> []"
  then have "(n - 1, raw ! (n - 1)) \<in> set (enumerate 0 raw)"
    by (auto simp: in_set_enumerate_iff)
  with a have "(n - 1 + 1, strip (raw ! (n - 1))) \<in> set (links_of raw)"
    unfolding links_of_def by (force simp: image_iff)
  with a show "(n, u) \<in> set (links_of raw)" by simp
qed

lemma filter_enumerate_snd:
  "map snd (filter (\<lambda>(i, x). P x) (enumerate n xs)) = filter P xs"
  by (induction xs arbitrary: n) auto

lemma map_snd_links_of:
  "map snd (links_of raw) = map strip (filter (\<lambda>line. strip line \<noteq> []) raw)"
proof -
  have "map snd (links_of raw) =
      map strip (map snd (filter (\<lambda>(i, line). strip line \<noteq> []) (enumerate 0 raw)))"
    by (simp add: links_of_def case_prod_unfold comp_def)
  then show ?thesis by (simp add: filter_enumerate_snd)
qed

lemma length_links_of:
  "length (links_of raw) = length (filter (\<lambda>line. strip line \<noteq> []) raw)"
proof -
  have "length (links_of raw) = length (map snd (links_of raw))" by simp
  then show ?thesis by (simp only: map_snd_links_of length_map)
qed

lemma sorted_fst_filter_enumerate:
  "sorted_wrt (<) (map fst (filter Q (enumerate n xs)))"
proof -
  have "sorted_wrt (<) (map fst (enumerate n xs))" by (simp add: map_fst_enumerate)
  then have "sorted_wrt (\<lambda>p q. fst p < fst q) (enumerate n xs)"
    by (simp only: sorted_wrt_map)
  then have "sorted_wrt (\<lambda>p q. fst p < fst q) (filter Q (enumerate n xs))"
    by (rule sorted_wrt_filter)
  then show ?thesis by (simp add: sorted_wrt_map)
qed

lemma sorted_links_of: "sorted_wrt (<) (map fst (links_of raw))"
proof -
  have "sorted_wrt (\<lambda>p q. fst p < fst q) (filter (\<lambda>(i, line). strip line \<noteq> []) (enumerate 0 raw))"
    using sorted_fst_filter_enumerate [of "\<lambda>(i, line). strip line \<noteq> []" 0 raw]
    by (simp add: sorted_wrt_map)
  then show ?thesis
    by (simp add: links_of_def sorted_wrt_map case_prod_unfold)
qed


lemma extends_refl: "extends P d d"
  by (simp add: extends_def)

lemma extends_trans: "extends P d d1 \<Longrightarrow> extends P d1 d2 \<Longrightarrow> extends P d d2"
  by (auto simp: extends_def)

lemma extends_mono: "extends P d d' \<Longrightarrow> (\<And>c. P c \<Longrightarrow> Q c) \<Longrightarrow> extends Q d d'"
  by (auto simp: extends_def list_all_iff)

lemma extends_new_calls:
  "extends P d d' \<Longrightarrow> calls d' = calls d @ new_calls d d' \<and> list_all P (new_calls d d')"
  by (auto simp: extends_def new_calls_def)

lemma extends_log: "P c \<Longrightarrow> extends P d (log_call c d)"
  by (simp add: extends_def log_call_def)

lemma extends_fields:
  "extends P d d' \<Longrightarrow> extends P d (d'\<lparr>handles := hs\<rparr>)"
  "extends P d d' \<Longrightarrow> extends P d (d'\<lparr>focus := h\<rparr>)"
  "extends P d d' \<Longrightarrow> extends P d (d'\<lparr>page := p\<rparr>)"
  by (simp_all add: extends_def)

lemma extends_switch: "P (SwitchTo h) \<Longrightarrow> extends P d (snd (switch_to_window e h d))"
  by (simp add: switch_to_window_def extends_log extends_fields split: option.splits)

lemma extends_close:
  "P (CloseWindow (focus d)) \<Longrightarrow> extends P d (snd (close_window e d))"
  by (simp add: close_window_def extends_log extends_fields split: option.splits)

lemma switch_focus:
  "switch_to_window e h d = (None, d1) \<Longrightarrow> focus d1 = h \<and> h \<in> set (handles d) \<and> switch_err e h = None \<and> handles d1 = handles d \<and> page d1 = page d"
  by (auto simp: switch_to_window_def log_call_def split: option.splits if_splits)

lemma switch_fail:
  "switch_to_window e h d = (Some x, d1) \<Longrightarrow> handles d1 = handles d \<and> focus d1 = focus d \<and> page d1 = page d
     \<and> (switch_err e h = Some x \<or> (switch_err e h = None \<and> h \<notin> set (handles d) \<and> x = NoSuchWindow))"
  by (auto simp: switch_to_window_def log_call_def split: option.splits if_splits)

lemma close_ok:
  "close_window e d = (None, d1) \<Longrightarrow>
     handles d1 = removeAll (focus d) (handles d) \<and> close_err e (focus d) = None \<and> focus d1 = focus d \<and> page d1 = page d"
  by (auto simp: close_window_def log_call_def split: option.splits if_splits)

lemma close_fail:
  "close_window e d = (Some x, d1) \<Longrightarrow> handles d1 = handles d \<and> focus d1 = focus d \<and> page d1 = page d
     \<and> (close_err e (focus d) = Some x \<or> (close_err e (focus d) = None \<and> focus d \<notin> set (handles d) \<and> x = NoSuchWindow))"
  by (auto simp: close_window_def log_call_def split: option.splits if_splits)

lemma extends_close_each:
  "extends (reap_call keep) d (snd (close_each e keep hs d))"
proof (induction hs arbitrary: d)
  case Nil
  show ?case by (simp add: extends_refl)
next
  case (Cons h hs)
  show ?case
  proof (cases "h = keep")
    case True
    then show ?thesis using Cons.IH by simp
  next
    case False
    obtain r1 d1 where sw: "switch_to_window e h d = (r1, d1)" by (cases "switch_to_window e h d")
    have e1: "extends (reap_call keep) d d1"
      using extends_switch [of "reap_call keep" h d e] sw by simp
    show ?thesis
    proof (cases r1)
      case (Some x)
      then show ?thesis using False sw e1 Cons.IH [of d1]
        by (auto simp: extends_refl intro: extends_trans)
    next
      case None
      with sw have f: "focus d1 = h" by (auto dest: switch_focus)
      obtain r2 d2 where cl: "close_window e d1 = (r2, d2)" by (cases "close_window e d1")
      have "extends (reap_call keep) d1 d2"
        using extends_close [of "reap_call keep" d1 e] cl f False by simp
      with e1 have e2: "extends (reap_call keep) d d2" by (rule extends_trans)
      show ?thesis using False sw None cl e2 Cons.IH [of d2]
        by (cases r2) (auto intro: extends_trans)
    qed
  qed
qed


lemma close_each_keeps:
  "keep \<in> set (handles d) \<Longrightarrow> keep \<in> set (handles (snd (close_each e keep hs d)))"
proof (induction hs arbitrary: d)
  case Nil
  then show ?case by simp
next
  case (Cons h hs)
  show ?case
  proof (cases "h = keep")
    case True
    then show ?thesis using Cons by simp
  next
    case False
    obtain r1 d1 where sw: "switch_to_window e h d = (r1, d1)" by (cases "switch_to_window e h d")
    show ?thesis
    proof (cases r1)
      case (Some x)
      with sw have "handles d1 = handles d" by (auto dest: switch_fail)
      then show ?thesis using False sw Some Cons.IH [of d1] Cons.prems by auto
    next
      case None
      with sw have f: "focus d1 = h" "handles d1 = handles d" by (auto dest: switch_focus)
      obtain r2 d2 where cl: "close_window e d1 = (r2, d2)" by (cases "close_window e d1")
      have "keep \<in> set (handles d2)"
      proof (cases r2)
        case None
        with cl have "handles d2 = removeAll h (handles d)" using f by (auto dest: close_ok)
        with False Cons.prems show ?thesis by simp
      next
        case (Some x)
        with cl have "handles d2 = handles d" using f by (auto dest: close_fail)
        with Cons.prems show ?thesis by simp
      qed
      then show ?thesis using False sw None cl Cons.IH [of d2]
        by (cases r2) auto
    qed
  qed
qed

lemma close_each_page: "page (snd (close_each e keep hs d)) = page d"
proof (induction hs arbitrary: d)
  case Nil
  then show ?case by simp
next
  case (Cons h hs)
  show ?case
  proof (cases "h = keep")
    case True
    then show ?thesis using Cons by simp
  next
    case False
    obtain r1 d1 where sw: "switch_to_window e h d = (r1, d1)" by (cases "switch_to_window e h d")
    show ?thesis
    proof (cases r1)
      case (Some x)
      with sw have "page d1 = page d" by (auto dest: switch_fail)
      then show ?thesis using False sw Some Cons.IH [of d1] by auto
    next
      case None
      with sw have f: "page d1 = page d" by (auto dest: switch_focus)
      obtain r2 d2 where cl: "close_window e d1 = (r2, d2)" by (cases "close_window e d1")
      have "page d2 = page d" using cl f by (cases r2) (auto dest: close_ok close_fail)
      then show ?thesis using False sw None cl Cons.IH [of d2]
        by (cases r2) auto
    qed
  qed
qed

lemma filter_removeAll_cong:
  "(\<And>x. x \<noteq> h \<Longrightarrow> P x = Q x) \<Longrightarrow> \<not> Q h \<Longrightarrow> filter P (removeAll h xs) = filter Q xs"
  by (induction xs) auto

lemma close_each_swallows:
  assumes sw_ok: "\<And>h x. switch_err e h = Some x \<Longrightarrow> is_WebDriverException x"
    and cl_ok: "\<And>h x. close_err e h = Some x \<Longrightarrow> is_WebDriverException x"
  shows "fst (close_each e keep hs d) = None \<and>
         handles (snd (close_each e keep hs d)) =
           filter (\<lambda>h. h \<notin> set hs \<or> stays e keep h) (handles d)"
proof (induction hs arbitrary: d)
  case Nil
  show ?case by simp
next
  case (Cons h hs)
  show ?case
  proof (cases "h = keep")
    case True
    have "filter (\<lambda>h'. h' \<notin> set hs \<or> stays e keep h') (handles d) =
          filter (\<lambda>h'. h' \<notin> set (h # hs) \<or> stays e keep h') (handles d)"
      using True by (intro filter_cong) (auto simp: stays_def)
    then show ?thesis using True Cons.IH [of d] by simp
  next
    case False
    obtain r1 d1 where sw: "switch_to_window e h d = (r1, d1)" by (cases "switch_to_window e h d")
    show ?thesis
    proof (cases r1)
      case (Some x)
      with sw have h1: "handles d1 = handles d"
        and why: "switch_err e h = Some x \<or> (switch_err e h = None \<and> h \<notin> set (handles d) \<and> x = NoSuchWindow)"
        by (auto dest: switch_fail)
      from why have wd: "is_WebDriverException x"
        by (auto dest: sw_ok simp: NoSuchWindow_def)
      from why have "filter (\<lambda>h'. h' \<notin> set hs \<or> stays e keep h') (handles d) =
          filter (\<lambda>h'. h' \<notin> set (h # hs) \<or> stays e keep h') (handles d)"
        by (intro filter_cong) (auto simp: stays_def)
      then show ?thesis using False sw Some wd h1 Cons.IH [of d1] by simp
    next
      case None
      with sw have f: "focus d1 = h" "handles d1 = handles d" "h \<in> set (handles d)" "switch_err e h = None"
        by (auto dest: switch_focus)
      obtain r2 d2 where cl: "close_window e d1 = (r2, d2)" by (cases "close_window e d1")
      show ?thesis
      proof (cases r2)
        case None
        with cl f have h2: "handles d2 = removeAll h (handles d)" and ce: "close_err e h = None"
          by (auto dest: close_ok)
        have "filter (\<lambda>h'. h' \<notin> set hs \<or> stays e keep h') (removeAll h (handles d)) =
          filter (\<lambda>h'. h' \<notin> set (h # hs) \<or> stays e keep h') (handles d)"
          using False f ce
          by (intro filter_removeAll_cong) (auto simp: stays_def)
        then show ?thesis using False sw \<open>r1 = None\<close> cl None h2 Cons.IH [of d2] by simp
      next
        case (Some x)
        with cl f have h2: "handles d2 = handles d"
          and why: "close_err e h = Some x \<or> (close_err e h = None \<and> h \<notin> set (handles d) \<and> x = NoSuchWindow)"
          by (auto dest: close_fail)
        from why f have wd: "is_WebDriverException x" and ce: "close_err e h \<noteq> None"
          by (auto dest: cl_ok)
        from ce have "filter (\<lambda>h'. h' \<notin> set hs \<or> stays e keep h') (handles d) =
          filter (\<lambda>h'. h' \<notin> set (h # hs) \<or> stays e keep h') (handles d)"
          by (intro filter_cong) (auto simp: stays_def)
        then show ?thesis using False sw \<open>r1 = None\<close> cl Some wd h2 Cons.IH [of d2] by simp
      qed
    qed
  qed
qed


lemma close_popup_tabs_extends:
  "extends (reap_call keep) d (snd (close_popup_tabs e keep d))"
proof -
  have 0: "extends (reap_call keep) d (log_call WindowHandles d)"
    by (simp add: extends_log)
  show ?thesis
  proof (cases "handles_err e")
    case (Some x)
    then show ?thesis using 0 by (simp add: close_popup_tabs_def window_handles_def)
  next
    case None
    let ?d1 = "log_call WindowHandles d"
    obtain r2 d2 where ce: "close_each e keep (handles d) ?d1 = (r2, d2)"
      by (cases "close_each e keep (handles d) ?d1")
    have "extends (reap_call keep) ?d1 d2"
      using extends_close_each [of keep ?d1 e "handles d"] ce by simp
    with 0 have 2: "extends (reap_call keep) d d2" by (rule extends_trans)
    have 3: "extends (reap_call keep) d2 (snd (switch_to_window e keep d2))"
      by (simp add: extends_switch)
    from 2 3 have 4: "extends (reap_call keep) d (snd (switch_to_window e keep d2))"
      by (rule extends_trans)
    show ?thesis using None ce 2 4
      by (auto simp: close_popup_tabs_def window_handles_def split: option.splits prod.splits)
  qed
qed

lemma switch_page: "page (snd (switch_to_window e h d)) = page d"
  by (simp add: switch_to_window_def log_call_def split: option.splits)

lemma close_popup_tabs_page: "page (snd (close_popup_tabs e keep d)) = page d"
proof -
  have "page (snd (close_each e keep hs (log_call WindowHandles d))) = page d" for hs
    by (simp add: close_each_page log_call_def)
  moreover have "page (snd (switch_to_window e keep d2)) = page d2" for d2
    by (rule switch_page)
  ultimately show ?thesis
    by (auto simp: close_popup_tabs_def window_handles_def log_call_def
        split: option.splits prod.splits) (metis snd_conv)+
qed

lemma close_popup_tabs_keeps:
  "keep \<in> set (handles d) \<Longrightarrow> keep \<in> set (handles (snd (close_popup_tabs e keep d)))"
proof -
  assume k: "keep \<in> set (handles d)"
  let ?d1 = "log_call WindowHandles d"
  from k have k1: "keep \<in> set (handles ?d1)" by (simp add: log_call_def)
  show ?thesis
  proof (cases "handles_err e")
    case (Some x)
    then show ?thesis using k1 by (simp add: close_popup_tabs_def window_handles_def)
  next
    case None
    obtain r2 d2 where ce: "close_each e keep (handles d) ?d1 = (r2, d2)"
      by (cases "close_each e keep (handles d) ?d1")
    have k2: "keep \<in> set (handles d2)"
      using close_each_keeps [OF k1, of e "handles d"] ce by simp
    obtain r3 d3 where sw: "switch_to_window e keep d2 = (r3, d3)"
      by (cases "switch_to_window e keep d2")
    have "handles d3 = handles d2" using sw by (cases r3) (auto dest: switch_fail switch_focus)
    with k2 show ?thesis using None ce sw
      by (auto simp: close_popup_tabs_def window_handles_def split: option.splits)
  qed
qed

lemma close_popup_tabs_swallows:
  assumes en: "handles_err e = None"
    and sw_all: "\<forall>h x. switch_err e h = Some x \<longrightarrow> is_WebDriverException x"
    and cl_all: "\<forall>h x. close_err e h = Some x \<longrightarrow> is_WebDriverException x"
  shows "fst (close_popup_tabs e keep d) = None"
    and "handles (snd (close_popup_tabs e keep d)) = filter (stays e keep) (handles d)"
    and "switch_err e keep = None \<Longrightarrow> keep \<in> set (handles d) \<Longrightarrow>
           focus (snd (close_popup_tabs e keep d)) = keep"
proof -
  have sw_ok: "\<And>h x. switch_err e h = Some x \<Longrightarrow> is_WebDriverException x"
    using sw_all by blast
  have cl_ok: "\<And>h x. close_err e h = Some x \<Longrightarrow> is_WebDriverException x"
    using cl_all by blast
  let ?d1 = "log_call WindowHandles d"
  obtain r2 d2 where ce: "close_each e keep (handles d) ?d1 = (r2, d2)"
    by (cases "close_each e keep (handles d) ?d1")
  have "fst (close_each e keep (handles d) ?d1) = None \<and>
        handles (snd (close_each e keep (handles d) ?d1)) =
          filter (\<lambda>h. h \<notin> set (handles d) \<or> stays e keep h) (handles ?d1)"
    using sw_ok cl_ok by (rule close_each_swallows)
  with ce have r2: "r2 = None"
    and h2: "handles d2 = filter (\<lambda>h. h \<notin> set (handles d) \<or> stays e keep h) (handles d)"
    by (simp_all add: log_call_def)
  have "filter (\<lambda>h. h \<notin> set (handles d) \<or> stays e keep h) (handles d) = filter (stays e keep) (handles d)"
    by (intro filter_cong) auto
  with h2 have h2': "handles d2 = filter (stays e keep) (handles d)" by simp
  obtain r3 d3 where sw: "switch_to_window e keep d2 = (r3, d3)"
    by (cases "switch_to_window e keep d2")
  have res: "close_popup_tabs e keep d =
      (case r3 of None \<Rightarrow> (None, d3) | Some x \<Rightarrow> if is_WebDriverException x then (None, d3) else (Some x, d3))"
    using en ce r2 sw by (simp add: close_popup_tabs_def window_handles_def split: option.splits)
  have wd: "is_WebDriverException x" if "r3 = Some x" for x
    using that sw sw_ok by (auto dest!: switch_fail simp: NoSuchWindow_def)
  have h3: "handles d3 = handles d2" using sw by (cases r3) (auto dest: switch_fail switch_focus)
  show "fst (close_popup_tabs e keep d) = None"
    using res wd by (cases r3) auto
  show "handles (snd (close_popup_tabs e keep d)) = filter (stays e keep) (handles d)"
    using res wd h3 h2' by (cases r3) auto
  show "focus (snd (close_popup_tabs e keep d)) = keep"
    if a: "switch_err e keep = None" and b: "keep \<in> set (handles d)"
  proof -
    from b h2' have "keep \<in> set (handles d2)" by (simp add: stays_def)
    with a have "switch_to_window e keep d2 = (None, (log_call (SwitchTo keep) d2)\<lparr>focus := keep\<rparr>)"
      by (simp add: switch_to_window_def)
    with sw have "r3 = None" "focus d3 = keep" by auto
    with res show ?thesis by simp
  qed
qed


lemma any_phrase_text:
  "source (page d) = Inr text \<Longrightarrow>
     fst (any_phrase ps d) = Inr (\<exists>p\<in>set ps. str_in p (lower text))"
  by (induction ps arbitrary: d) (auto simp: page_source_def log_call_def)

lemma any_phrase_page: "page (snd (any_phrase ps d)) = page d"
  by (induction ps arbitrary: d) (auto simp: page_source_def log_call_def split: sum.splits)

lemma any_phrase_handles: "handles (snd (any_phrase ps d)) = handles d \<and> focus (snd (any_phrase ps d)) = focus d"
  by (induction ps arbitrary: d) (auto simp: page_source_def log_call_def split: sum.splits)

lemma any_phrase_extends: "P PageSource \<Longrightarrow> extends P d (snd (any_phrase ps d))"
proof (induction ps arbitrary: d)
  case Nil
  show ?case by (simp add: extends_refl)
next
  case (Cons p ps)
  have 1: "extends P d (log_call PageSource d)" using Cons.prems by (rule extends_log)
  have 2: "extends P (log_call PageSource d) (snd (any_phrase ps (log_call PageSource d)))"
    using Cons.prems by (rule Cons.IH)
  from 1 2 have 3: "extends P d (snd (any_phrase ps (log_call PageSource d)))"
    by (rule extends_trans)
  show ?case using 1 3 by (auto simp: page_source_def split: sum.splits)
qed

lemma lower_append: "lower (xs @ ys) = lower xs @ lower ys"
  by (simp add: lower_def)

lemma str_in_lower_iff:
  assumes "lower p = p"
  shows "str_in p (lower text) \<longleftrightarrow> occurs_ci p text"
proof
  assume "str_in p (lower text)"
  then obtain pre post where "lower text = pre @ p @ post" by (auto simp: str_in_iff)
  then obtain us vs where 1: "text = us @ vs" "pre = lower us" "p @ post = lower vs"
    unfolding lower_def by (auto simp: map_eq_append_conv)
  from 1(3) obtain ms ws where 2: "vs = ms @ ws" "p = lower ms"
    unfolding lower_def by (auto simp: append_eq_map_conv)
  from 1 2 assms have "text = us @ ms @ ws \<and> lower ms = lower p" by simp
  then show "occurs_ci p text" unfolding occurs_ci_def by blast
next
  assume "occurs_ci p text"
  then obtain pre mid post where "text = pre @ mid @ post" "lower mid = lower p"
    unfolding occurs_ci_def by blast
  with assms have "lower text = lower pre @ p @ lower post" by (simp add: lower_append)
  then show "str_in p (lower text)" unfolding str_in_iff by blast
qed

lemma INVALID_PAGE_TEXTS_lower: "p \<in> set INVALID_PAGE_TEXTS \<Longrightarrow> lower p = p"
  by (auto simp: INVALID_PAGE_TEXTS_def lower_def lower_char_def)

lemma is_page_invalid_text:
  "source (page d) = Inr text \<Longrightarrow>
     fst (is_page_invalid d) = Inr (\<exists>p\<in>set INVALID_PAGE_TEXTS. occurs_ci p text)"
  by (simp add: is_page_invalid_def any_phrase_text str_in_lower_iff INVALID_PAGE_TEXTS_lower cong: bex_cong)

lemma try_selectors_page: "page (snd (try_selectors sels d)) = page d"
  by (induction sels arbitrary: d)
    (auto simp: find_element_def is_displayed_def log_call_def split: sum.splits bool.splits)

lemma try_selectors_extends:
  "(\<And>s. P (FindElement s)) \<Longrightarrow> (\<And>b. P (IsDisplayed b)) \<Longrightarrow> extends P d (snd (try_selectors sels d))"
proof (induction sels arbitrary: d)
  case Nil
  show ?case by (simp add: extends_refl)
next
  case (Cons s sels)
  let ?d1 = "log_call (FindElement s) d"
  have 1: "extends P d ?d1" using Cons.prems(1) by (rule extends_log)
  have 2: "extends P d (snd (try_selectors sels ?d1))"
    using 1 Cons.IH [OF Cons.prems, of ?d1] by (rule extends_trans)
  have 3: "extends P d (log_call (IsDisplayed b) ?d1)" for b
    using 1 extends_log [of P "IsDisplayed b" ?d1] Cons.prems(2) by (blast intro: extends_trans)
  have 4: "extends P d (snd (try_selectors sels (log_call (IsDisplayed b) ?d1)))" for b
    using 3 Cons.IH [OF Cons.prems, of "log_call (IsDisplayed b) ?d1"] by (rule extends_trans)
  show ?case using 1 2 3 4
    by (auto simp: find_element_def is_displayed_def split: sum.splits bool.splits)
qed

lemma try_selectors_miss:
  "\<forall>s\<in>set sels. probe (page d) s = Miss \<Longrightarrow> fst (try_selectors sels d) = Inr None"
proof (induction sels arbitrary: d)
  case Nil
  show ?case by simp
next
  case (Cons s sels)
  from Cons.prems have m: "probe (page d) s = Miss" and rest: "\<forall>t\<in>set sels. probe (page d) t = Miss"
    by auto
  have p1: "page (log_call c d') = page d'" for c d' by (simp add: log_call_def)
  from m show ?case using Cons.IH rest
    by (auto simp: probe_def find_element_def is_displayed_def p1 split: sum.splits bool.splits if_splits)
qed


lemma page_log_call: "page (log_call c d) = page d"
  by (simp add: log_call_def)

lemma try_selectors_first_probe: "fst (try_selectors sels d) = first_probe (page d) sels"
  by (induction sels arbitrary: d)
    (auto simp: probe_def find_element_def is_displayed_def page_log_call
      split: sum.splits bool.splits)

lemma first_probe_None_iff:
  "first_probe p sels = Inr None \<longleftrightarrow> (\<forall>s\<in>set sels. probe p s = Miss)"
  by (induction sels) (auto split: probe.splits)





lemma reap_call_link_call: "reap_call keep c \<Longrightarrow> link_call url keep c"
  by (cases c) auto

lemma reap_call_not_control: "reap_call keep c \<Longrightarrow> \<not> control_call c"
  by (cases c) auto

lemma click_call_control: "click_call c \<Longrightarrow> control_call c"
  by (cases c) auto

lemma step_get: "P (Get url) \<Longrightarrow> driver_get e url d = (r, d1) \<Longrightarrow> extends P d d1"
  by (auto simp: driver_get_def extends_log extends_fields split: sum.splits)

lemma step_reap:
  "(\<And>c. reap_call keep c \<Longrightarrow> P c) \<Longrightarrow> close_popup_tabs e keep d = (r, d1) \<Longrightarrow> extends P d d1"
  using close_popup_tabs_extends [of keep d e]
  by (auto intro: extends_mono)

lemma step_invalid: "P PageSource \<Longrightarrow> is_page_invalid d = (r, d1) \<Longrightarrow> extends P d d1"
  using any_phrase_extends [of P d INVALID_PAGE_TEXTS]
  by (simp add: is_page_invalid_def)

lemma pass_TimeoutException_snd: "snd (pass_TimeoutException rd) = snd rd"
  by (cases rd rule: pass_TimeoutException.cases) auto

lemma step_wait:
  "P (WaitPresence sel) \<Longrightarrow> pass_TimeoutException (wait_presence sel d) = (r, d1) \<Longrightarrow> extends P d d1"
  using pass_TimeoutException_snd [of "wait_presence sel d"]
  by (simp add: wait_presence_def extends_log)

lemma step_find:
  "(\<And>s. P (FindElement s)) \<Longrightarrow> (\<And>b. P (IsDisplayed b)) \<Longrightarrow> find_download_button d = (r, d1) \<Longrightarrow> extends P d d1"
  using try_selectors_extends [of P d DOWNLOAD_BUTTON_SELECTORS]
  by (simp add: find_download_button_def)

lemma step_click: "P (Click b) \<Longrightarrow> click b d = (r, d1) \<Longrightarrow> extends P d d1"
  by (auto simp: click_def extends_log extends_fields split: option.splits)

lemma step_sleep: "P Sleep \<Longrightarrow> extends P d (sleep d)"
  by (simp add: sleep_def extends_log)

lemma process_link_extends:
  "extends (link_call url keep) d (snd (process_link e url keep d))"
proof -
  let ?P = "link_call url keep"
  have P: "?P (Get url)" "\<And>c. reap_call keep c \<Longrightarrow> ?P c" "?P PageSource"
    "\<And>s. ?P (WaitPresence s)" "\<And>s. ?P (FindElement s)" "\<And>b. ?P (IsDisplayed b)"
    "\<And>b. ?P (Click b)" "?P Sleep"
    by (simp_all add: reap_call_link_call)
  obtain r1 d1 where g: "driver_get e url d = (r1, d1)" by (cases "driver_get e url d")
  then have e1: "extends ?P d d1" using P by (intro step_get)
  show ?thesis
  proof (cases r1)
    case (Some x)
    then show ?thesis using g e1 by (cases x) (simp_all add: process_link_def)
  next
    case r1: None
    obtain r2 d2 where c: "close_popup_tabs e keep d1 = (r2, d2)" by (cases "close_popup_tabs e keep d1")
    from e1 step_reap [where P = "link_call url keep", OF P(2) c] have e2: "extends ?P d d2" by (rule extends_trans)
    show ?thesis
    proof (cases r2)
      case (Some x)
      then show ?thesis using g r1 c e2 by (simp add: process_link_def)
    next
      case r2: None
      obtain r3 d3 where i: "is_page_invalid d2 = (r3, d3)" by (cases "is_page_invalid d2")
      from e2 step_invalid [where P = "link_call url keep", OF P(3) i] have e3: "extends ?P d d3" by (rule extends_trans)
      obtain r4 d4 where w: "pass_TimeoutException (wait_presence (DOWNLOAD_BUTTON_SELECTORS ! 0) d3) = (r4, d4)"
        by (cases "pass_TimeoutException (wait_presence (DOWNLOAD_BUTTON_SELECTORS ! 0) d3)")
      from e3 step_wait [where P = "link_call url keep", OF P(4) w] have e4: "extends ?P d d4" by (rule extends_trans)
      obtain r5 d5 where f: "find_download_button d4 = (r5, d5)" by (cases "find_download_button d4")
      from e4 step_find [where P = "link_call url keep", OF P(5) P(6) f] have e5: "extends ?P d d5" by (rule extends_trans)
      have e6: "extends ?P d d6" if "click b d5 = (r6, d6)" for b r6 d6
        using e5 step_click [where P = "link_call url keep", OF P(7) that] by (rule extends_trans)
      have e7: "extends ?P d (sleep d6)" if "click b d5 = (r6, d6)" for b r6 d6
        using e6 [OF that] step_sleep [where P = "link_call url keep", OF P(8)] by (rule extends_trans)
      have e8: "extends ?P d d8" if "click b d5 = (r6, d6)" "close_popup_tabs e keep (sleep d6) = (r8, d8)" for b r6 d6 r8 d8
        using e7 [OF that(1)] step_reap [where P = "link_call url keep", OF P(2) that(2)] by (rule extends_trans)
      show ?thesis using g r1 c r2 i e3 w e4 f e5 e6 e8
        by (auto simp: process_link_def split: sum.splits bool.splits option.splits prod.splits)
    qed
  qed
qed

lemma process_link_invalid:
  assumes g: "driver_get e url d = (None, d1)"
    and c: "close_popup_tabs e keep d1 = (None, d2)"
    and i: "is_page_invalid d2 = (Inr True, d3)"
  shows "process_link e url keep d =
           (Inr (False, ''MediaFire reports file as invalid or deleted''), d3)"
    and "extends (\<lambda>c. \<not> control_call c) d d3"
proof -
  show "process_link e url keep d =
           (Inr (False, ''MediaFire reports file as invalid or deleted''), d3)"
    using g c i by (simp add: process_link_def)
  let ?P = "\<lambda>c. \<not> control_call c"
  have "extends ?P d d1" using g by (intro step_get) simp
  moreover have "extends ?P d1 d2" using c by (intro step_reap [of keep]) (auto dest: reap_call_not_control)
  moreover have "extends ?P d2 d3" using i by (intro step_invalid) simp
  ultimately show "extends ?P d d3" by (blast intro: extends_trans)
qed

lemma driver_get_page: "driver_get e url d = (None, d1) \<Longrightarrow> web e url = Inr (page d1)"
  by (auto simp: driver_get_def log_call_def split: sum.splits)

lemma is_page_invalid_page: "page (snd (is_page_invalid d)) = page d"
  by (simp add: is_page_invalid_def any_phrase_page)

lemma wait_page: "page (snd (pass_TimeoutException (wait_presence sel d))) = page d"
  by (simp add: pass_TimeoutException_snd wait_presence_def page_log_call)

lemma find_download_button_miss:
  "\<forall>s\<in>set DOWNLOAD_BUTTON_SELECTORS. probe (page d) s = Miss \<Longrightarrow>
     fst (find_download_button d) = Inr None"
  by (simp add: find_download_button_def try_selectors_miss)

lemma process_link_no_button:
  assumes web: "web e url = Inr p"
    and miss: "\<forall>s\<in>set DOWNLOAD_BUTTON_SELECTORS. probe p s = Miss"
  shows "extends (\<lambda>c. \<not> click_call c) d (snd (process_link e url keep d))"
    and "fst (process_link e url keep d) \<noteq> Inr (True, reason)"
    and "close_popup_tabs e keep (snd (driver_get e url d)) = (None, d2) \<Longrightarrow>
         is_page_invalid d2 = (Inr False, d3) \<Longrightarrow>
         pass_TimeoutException (wait_presence (DOWNLOAD_BUTTON_SELECTORS ! 0) d3) = (None, d4) \<Longrightarrow>
         process_link e url keep d =
           (Inr (False, ''Download button not found on page''), snd (find_download_button d4))"
proof -
  let ?P = "\<lambda>c. \<not> click_call c"
  have P: "?P (Get url)" "\<And>c. reap_call keep c \<Longrightarrow> ?P c" "?P PageSource"
    "\<And>s. ?P (WaitPresence s)" "\<And>s. ?P (FindElement s)" "\<And>b. ?P (IsDisplayed b)"
    by (auto dest: reap_call_not_control click_call_control)
  obtain d1 where g: "driver_get e url d = (None, d1)" and p1: "page d1 = p"
    using web by (auto simp: driver_get_def log_call_def)
  have e1: "extends ?P d d1" using g by (intro step_get) simp
  obtain r2 d2' where c: "close_popup_tabs e keep d1 = (r2, d2')" by (cases "close_popup_tabs e keep d1")
  from e1 step_reap [where P = "\<lambda>c. \<not> click_call c", OF P(2) c] have e2: "extends ?P d d2'" by (rule extends_trans)
  have p2: "page d2' = p" using close_popup_tabs_page [of e keep d1] c p1 by simp
  obtain r3 d3' where i: "is_page_invalid d2' = (r3, d3')" by (cases "is_page_invalid d2'")
  from e2 step_invalid [where P = "\<lambda>c. \<not> click_call c", OF P(3) i] have e3: "extends ?P d d3'" by (rule extends_trans)
  have p3: "page d3' = p" using is_page_invalid_page [of d2'] i p2 by simp
  obtain r4 d4' where w: "pass_TimeoutException (wait_presence (DOWNLOAD_BUTTON_SELECTORS ! 0) d3') = (r4, d4')"
    by (cases "pass_TimeoutException (wait_presence (DOWNLOAD_BUTTON_SELECTORS ! 0) d3')")
  from e3 step_wait [where P = "\<lambda>c. \<not> click_call c", OF P(4) w] have e4: "extends ?P d d4'" by (rule extends_trans)
  have p4: "page d4' = p" using wait_page [of "DOWNLOAD_BUTTON_SELECTORS ! 0" d3'] w p3 by simp
  obtain r5 d5 where f: "find_download_button d4' = (r5, d5)" by (cases "find_download_button d4'")
  from e4 step_find [where P = "\<lambda>c. \<not> click_call c", OF P(5) P(6) f] have e5: "extends ?P d d5" by (rule extends_trans)
  have r5: "r5 = Inr None" using find_download_button_miss [of d4'] miss p4 f by simp
  show "extends ?P d (snd (process_link e url keep d))"
    using g c i w f r5 e1 e2 e3 e4 e5
    by (auto simp: process_link_def split: sum.splits bool.splits option.splits prod.splits)
  show "fst (process_link e url keep d) \<noteq> Inr (True, reason)"
    using g c i w f r5
    by (auto simp: process_link_def split: sum.splits bool.splits option.splits prod.splits)
  show "process_link e url keep d =
           (Inr (False, ''Download button not found on page''), snd (find_download_button d4))"
    if "close_popup_tabs e keep (snd (driver_get e url d)) = (None, d2)"
      "is_page_invalid d2 = (Inr False, d3)"
      "pass_TimeoutException (wait_presence (DOWNLOAD_BUTTON_SELECTORS ! 0) d3) = (None, d4)"
  proof -
    from that g c have "d2' = d2" "r2 = None" by simp_all
    with that i have "d3' = d3" "r3 = Inr False" by simp_all
    with that w have "d4' = d4" "r4 = None" by simp_all
    with g c i w f r5 \<open>r2 = None\<close> \<open>r3 = Inr False\<close> \<open>d2' = d2\<close> \<open>d3' = d3\<close>
    show ?thesis by (simp add: process_link_def)
  qed
qed


lemma input_cases:
  "input m c = (r, c') \<Longrightarrow> stdout c' = stdout c @ [m]"
  by (auto simp: input_def emit_def split: list.splits con_event.splits)

text \<open>One round of the loop, as three cases.\<close>

lemma link_loop_step:
  obtains
    (raised) x d where
      "process_link e url mh (drv s) = (Inl x, d)"
      "link_loop e mh n ((i, ln, url) # rest) s =
         (Some x, s\<lparr>idx := i, con := emit (InfoLink i n ln url) (con s), drv := d\<rparr>)"
  | (stopped) ok reason d x c s2 where
      "process_link e url mh (drv s) = (Inr (ok, reason), d)"
      "link_loop e mh n ((i, ln, url) # rest) s = (Some x, s2)"
      "idx s2 = i" "drv s2 = d" "con s2 = c"
      "stdout c \<noteq> []" "last (stdout c) = PromptSaved \<or> last (stdout c) = PromptContinue"
      "outcome_count s2 = outcome_count s + 1"
      "failed_links s2 = failed_links s @ (if ok then [] else [(ln, url, reason)])"
      "success_count s2 = success_count s + (if ok then 1 else 0)"
  | (continued) ok reason d s2 where
      "process_link e url mh (drv s) = (Inr (ok, reason), d)"
      "link_loop e mh n ((i, ln, url) # rest) s = link_loop e mh n rest s2"
      "idx s2 = i" "drv s2 = d"
      "outcome_count s2 = outcome_count s + 1"
      "failed_links s2 = failed_links s @ (if ok then [] else [(ln, url, reason)])"
      "success_count s2 = success_count s + (if ok then 1 else 0)"
proof -
  obtain r d where p: "process_link e url mh (drv s) = (r, d)"
    by (cases "process_link e url mh (drv s)")
  show ?thesis
  proof (cases r)
    case (Inl x)
    with p show ?thesis by (intro raised) (simp_all add: Let_def)
  next
    case (Inr res)
    obtain ok reason where res: "res = (ok, reason)" by (cases res)
    let ?s1 = "s\<lparr>idx := i, con := emit (InfoLink i n ln url) (con s)\<rparr>"
    let ?s2 = "if ok then ?s1\<lparr>drv := d, success_count := success_count s + 1\<rparr>
               else ?s1\<lparr>drv := d, con := emit (WarnFailed reason) (con ?s1),
                       failed_links := failed_links s @ [(ln, url, reason)]\<rparr>"
    let ?m = "if ok then PromptSaved else PromptContinue"
    obtain r3 c where inp: "input ?m (con ?s2) = (r3, c)" by (cases "input ?m (con ?s2)")
    then have out: "stdout c = stdout (con ?s2) @ [?m]" by (rule input_cases)
    show ?thesis
    proof (cases r3)
      case (Inl x)
      show ?thesis
      proof (rule stopped)
        show "process_link e url mh (drv s) = (Inr (ok, reason), d)" using p Inr res by simp
        show "link_loop e mh n ((i, ln, url) # rest) s = (Some x, ?s2\<lparr>con := c\<rparr>)"
          using p Inr res inp Inl by (auto simp: Let_def)
        show "stdout c \<noteq> []" using out by simp
        show "last (stdout c) = PromptSaved \<or> last (stdout c) = PromptContinue"
          using out by simp
      qed (simp_all add: outcome_count_def)
    next
      case (Inr line)
      show ?thesis
      proof (rule continued)
        show "process_link e url mh (drv s) = (Inr (ok, reason), d)" using p \<open>r = Inr res\<close> res by simp
        show "link_loop e mh n ((i, ln, url) # rest) s = link_loop e mh n rest (?s2\<lparr>con := c\<rparr>)"
          using p \<open>r = Inr res\<close> res inp Inr by (auto simp: Let_def)
      qed (simp_all add: outcome_count_def)
    qed
  qed
qed


lemma link_loop_count:
  "link_loop e mh n items s = (r, s') \<Longrightarrow>
     (r = None \<longrightarrow> outcome_count s' = outcome_count s + length items
                   \<and> (items \<noteq> [] \<longrightarrow> idx s' = fst (last items))) \<and>
     (r \<noteq> None \<longrightarrow>
        (\<exists>j<length items. idx s' = fst (items ! j) \<and>
           outcome_count s' = outcome_count s + j + (if at_prompt (stdout (con s')) then 1 else 0)))"
proof (induction items arbitrary: s)
  case Nil
  then show ?case by simp
next
  case (Cons item rest)
  obtain i ln url where item: "item = (i, ln, url)" by (cases item)
  show ?case
  proof (cases rule: link_loop_step [of e url mh s n i ln rest])
    case (raised x d)
    with Cons.prems item have "r = Some x" "idx s' = i" "outcome_count s' = outcome_count s"
      "\<not> at_prompt (stdout (con s'))"
      by (auto simp: outcome_count_def emit_def at_prompt_def)
    then show ?thesis using item by (auto intro!: exI [of _ 0])
  next
    case (stopped ok reason d x c s2)
    with Cons.prems item have "r = Some x" "s' = s2" by auto
    moreover from stopped have "at_prompt (stdout (con s2))" by (simp add: at_prompt_def)
    ultimately show ?thesis using stopped(3,8) item by (auto intro!: exI [of _ 0])
  next
    case (continued ok reason d s2)
    with Cons.prems item have run: "link_loop e mh n rest s2 = (r, s')" by simp
    note IH = Cons.IH [OF run]
    show ?thesis
    proof (cases r)
      case None
      show ?thesis
      proof (cases rest)
        case Nil
        with run have "s' = s2" by simp
        with None Nil continued(3,5) item show ?thesis by simp
      next
        case (Cons a list)
        with IH None continued(3,5) item show ?thesis by simp
      qed
    next
      case (Some x)
      with IH obtain j where j: "j < length rest" "idx s' = fst (rest ! j)"
        "outcome_count s' = outcome_count s2 + j + (if at_prompt (stdout (con s')) then 1 else 0)"
        by auto
      with continued(5) have "Suc j < length (item # rest) \<and> idx s' = fst ((item # rest) ! Suc j) \<and>
          outcome_count s' = outcome_count s + Suc j + (if at_prompt (stdout (con s')) then 1 else 0)"
        by auto
      then show ?thesis using Some by blast
    qed
  qed
qed

lemma link_loop_failures:
  "link_loop e mh n items s = (r, s') \<Longrightarrow>
     \<exists>fs. failed_links s' = failed_links s @ fs \<and>
          subseq (map failure_link fs) (map snd items)"
proof (induction items arbitrary: s)
  case Nil
  then show ?case by simp
next
  case (Cons item rest)
  obtain i ln url where item: "item = (i, ln, url)" by (cases item)
  show ?case
  proof (cases rule: link_loop_step [of e url mh s n i ln rest])
    case (raised x d)
    with Cons.prems item have "failed_links s' = failed_links s @ []" by auto
    then show ?thesis by (intro exI [of _ "[]"]) simp
  next
    case (stopped ok reason d x c s2)
    with Cons.prems item have "s' = s2" by auto
    with stopped have "failed_links s' = failed_links s @ (if ok then [] else [(ln, url, reason)])"
      by simp
    moreover have "subseq (map failure_link (if ok then [] else [(ln, url, reason)])) (map snd (item # rest))"
      using item by simp
    ultimately show ?thesis by blast
  next
    case (continued ok reason d s2)
    with Cons.prems item have run: "link_loop e mh n rest s2 = (r, s')" by simp
    from Cons.IH [OF run] obtain fs where fs: "failed_links s' = failed_links s2 @ fs"
      "subseq (map failure_link fs) (map snd rest)" by blast
    let ?f0 = "if ok then [] else [(ln, url, reason)]"
    from fs continued(6) have "failed_links s' = failed_links s @ (?f0 @ fs)" by simp
    moreover have "subseq (map failure_link (?f0 @ fs)) (map snd (item # rest))"
      using fs(2) item by (auto intro: subseq_Cons')
    ultimately show ?thesis by blast
  qed
qed

lemma link_call_loop_call: "url \<in> urls \<Longrightarrow> link_call url keep c \<Longrightarrow> loop_call urls keep c"
  by (cases c) auto

lemma loop_call_mono: "urls \<subseteq> urls' \<Longrightarrow> loop_call urls keep c \<Longrightarrow> loop_call urls' keep c"
  by (cases c) auto

lemma link_loop_extends:
  "link_loop e mh n items s = (r, s') \<Longrightarrow>
     extends (loop_call (set (map (snd \<circ> snd) items)) mh) (drv s) (drv s')"
proof (induction items arbitrary: s)
  case Nil
  then show ?case by (simp add: extends_refl)
next
  case (Cons item rest)
  obtain i ln url where item: "item = (i, ln, url)" by (cases item)
  let ?U = "set (map (snd \<circ> snd) (item # rest))"
  have one: "extends (loop_call ?U mh) (drv s) d" if "process_link e url mh (drv s) = (res, d)" for res d
    using process_link_extends [of url mh "drv s" e] that item
    by (auto intro: extends_mono link_call_loop_call)
  show ?case
  proof (cases rule: link_loop_step [of e url mh s n i ln rest])
    case (raised x d)
    with Cons.prems item one [OF raised(1)] show ?thesis by auto
  next
    case (stopped ok reason d x c s2)
    with Cons.prems item one [OF stopped(1)] show ?thesis by auto
  next
    case (continued ok reason d s2)
    with Cons.prems item have run: "link_loop e mh n rest s2 = (r, s')" by simp
    have "extends (loop_call (set (map (snd \<circ> snd) rest)) mh) (drv s2) (drv s')"
      using Cons.IH [OF run] .
    then have "extends (loop_call ?U mh) (drv s2) (drv s')"
      by (rule extends_mono) (auto intro: loop_call_mono)
    with one [OF continued(1)] continued(4) show ?thesis by (auto intro: extends_trans)
  qed
qed


lemma input_stdin: "input m c = (r, c') \<Longrightarrow> \<exists>used. stdin c = used @ stdin c'"
  by (auto simp: input_def emit_def split: list.splits con_event.splits)

lemma link_loop_stdin:
  "link_loop e mh n items s = (r, s') \<Longrightarrow> \<exists>used. stdin (con s) = used @ stdin (con s')"
proof (induction items arbitrary: s)
  case Nil
  then show ?case by simp
next
  case (Cons item rest)
  obtain i ln url where item: "item = (i, ln, url)" by (cases item)
  obtain res d where p: "process_link e url mh (drv s) = (res, d)"
    by (cases "process_link e url mh (drv s)")
  have em: "stdin (emit m c) = stdin c" for m c by (simp add: emit_def)
  show ?case
  proof (cases res)
    case (Inl x)
    with Cons.prems item p have "stdin (con s') = stdin (con s)" by (auto simp: Let_def em)
    then show ?thesis by simp
  next
    case (Inr okr)
    obtain ok reason where okr: "okr = (ok, reason)" by (cases okr)
    let ?s1 = "s\<lparr>idx := i, con := emit (InfoLink i n ln url) (con s)\<rparr>"
    let ?s2 = "if ok then ?s1\<lparr>drv := d, success_count := success_count s + 1\<rparr>
               else ?s1\<lparr>drv := d, con := emit (WarnFailed reason) (con ?s1),
                       failed_links := failed_links s @ [(ln, url, reason)]\<rparr>"
    let ?m = "if ok then PromptSaved else PromptContinue"
    obtain r3 c where inp: "input ?m (con ?s2) = (r3, c)" by (cases "input ?m (con ?s2)")
    from input_stdin [OF inp] obtain u1 where u1: "stdin (con s) = u1 @ stdin c"
      by (auto simp: em split: if_splits)
    show ?thesis
    proof (cases r3)
      case (Inl x)
      with Cons.prems item p Inr okr inp have "con s' = c" by (auto simp: Let_def split: if_splits)
      with u1 show ?thesis by auto
    next
      case (Inr line)
      with Cons.prems item p \<open>res = Inr okr\<close> okr inp
      have "link_loop e mh n rest (?s2\<lparr>con := c\<rparr>) = (r, s')"
        by (auto simp: Let_def split: if_splits)
      from Cons.IH [OF this] obtain u2 where "stdin c = u2 @ stdin (con s')" by auto
      with u1 have "stdin (con s) = (u1 @ u2) @ stdin (con s')" by simp
      then show ?thesis by blast
    qed
  qed
qed

lemma shutdown_prompt_again:
  "\<not> affirmative line \<Longrightarrow>
     shutdown_prompt (Typed line # rest) out =
       shutdown_prompt rest
         (out @ [PromptFinish,
                 if lower (strip line) = ''n'' \<or> lower (strip line) = [] then StillWaiting
                 else PleaseType])"
  by (simp add: affirmative_def Let_def)

lemma shutdown_prompt_yes:
  "affirmative line \<Longrightarrow>
     shutdown_prompt (Typed line # rest) out = (None, \<lparr>stdin = rest, stdout = out @ [PromptFinish]\<rparr>)"
  by (simp add: affirmative_def Let_def)

lemma shutdown_prompt_None_iff:
  "fst (shutdown_prompt events out) = None \<longleftrightarrow>
     (\<exists>pre line post. events = map Typed pre @ Typed line # post \<and>
        (\<forall>l\<in>set pre. \<not> affirmative l) \<and> affirmative line)"
proof (induction events arbitrary: out)
  case Nil
  show ?case by simp
next
  case (Cons ev rest)
  show ?case
  proof (cases ev)
    case CtrlC
    have "\<not> (\<exists>pre line post. CtrlC # rest = map Typed pre @ Typed line # post \<and>
        (\<forall>l\<in>set pre. \<not> affirmative l) \<and> affirmative line)"
    proof
      assume "\<exists>pre line post. CtrlC # rest = map Typed pre @ Typed line # post \<and>
        (\<forall>l\<in>set pre. \<not> affirmative l) \<and> affirmative line"
      then obtain pre line post where "CtrlC # rest = map Typed pre @ Typed line # post" by blast
      then show False by (cases pre) auto
    qed
    with CtrlC show ?thesis by simp
  next
    case (Typed a)
    show ?thesis
    proof (cases "affirmative a")
      case True
      then have "Typed a # rest = map Typed [] @ Typed a # rest \<and> (\<forall>l\<in>set []. \<not> affirmative l) \<and> affirmative a"
        by simp
      then have "\<exists>pre line post. Typed a # rest = map Typed pre @ Typed line # post \<and>
        (\<forall>l\<in>set pre. \<not> affirmative l) \<and> affirmative line" by blast
      with True Typed show ?thesis
        using shutdown_prompt_yes [of a rest out] by (simp del: shutdown_prompt.simps)
    next
      case False
      have "(\<exists>pre line post. Typed a # rest = map Typed pre @ Typed line # post \<and>
              (\<forall>l\<in>set pre. \<not> affirmative l) \<and> affirmative line) \<longleftrightarrow>
            (\<exists>pre line post. rest = map Typed pre @ Typed line # post \<and>
              (\<forall>l\<in>set pre. \<not> affirmative l) \<and> affirmative line)" (is "?L \<longleftrightarrow> ?R")
      proof
        assume ?L
        then obtain pre line post where eq: "Typed a # rest = map Typed pre @ Typed line # post"
          and na: "\<forall>l\<in>set pre. \<not> affirmative l" and y: "affirmative line" by blast
        show ?R
        proof (cases pre)
          case Nil
          with eq y False show ?thesis by simp
        next
          case (Cons b pre')
          with eq na have "rest = map Typed pre' @ Typed line # post \<and> (\<forall>l\<in>set pre'. \<not> affirmative l)"
            by simp
          with y show ?thesis by blast
        qed
      next
        assume ?R
        then obtain pre line post where eq: "rest = map Typed pre @ Typed line # post"
          and na: "\<forall>l\<in>set pre. \<not> affirmative l" and y: "affirmative line" by blast
        with False have "Typed a # rest = map Typed (a # pre) @ Typed line # post \<and>
            (\<forall>l\<in>set (a # pre). \<not> affirmative l)" by simp
        with y show ?L by blast
      qed
      moreover have "fst (shutdown_prompt (ev # rest) out) = None \<longleftrightarrow> ?R"
        using False Typed Cons.IH shutdown_prompt_again [of a rest out]
        by (simp del: shutdown_prompt.simps)
      ultimately show ?thesis using Typed by simp
    qed
  qed
qed

lemma finish_quit:
  "Quit \<notin> set (calls (drv s)) \<Longrightarrow>
     (\<exists>d. browser (finish e path n s) = Some d \<and>
          (Quit \<in> set (calls d) \<longleftrightarrow> fst (shutdown_prompt (stdin (con s)) (stdout (con s))) = None))"
  by (auto simp: finish_def driver_quit_def log_call_def split: prod.splits option.splits)


lemma close_each_raises:
  "fst (close_each e keep hs d) = Some x \<Longrightarrow> \<not> is_WebDriverException x"
proof (induction hs arbitrary: d)
  case Nil
  then show ?case by simp
next
  case (Cons h hs)
  show ?case
  proof (cases "h = keep")
    case True
    with Cons show ?thesis by simp
  next
    case False
    obtain r1 d1 where sw: "switch_to_window e h d = (r1, d1)" by (cases "switch_to_window e h d")
    show ?thesis
    proof (cases r1)
      case (Some y)
      with False sw Cons.prems Cons.IH [of d1] show ?thesis by (auto split: if_splits)
    next
      case None
      obtain r2 d2 where cl: "close_window e d1 = (r2, d2)" by (cases "close_window e d1")
      with False sw None Cons.prems Cons.IH [of d2] show ?thesis
        by (cases r2) (auto split: if_splits)
    qed
  qed
qed

lemma close_popup_tabs_raises:
  "fst (close_popup_tabs e keep d) = Some x \<Longrightarrow> handles_err e = Some x \<or> \<not> is_WebDriverException x"
proof -
  assume a: "fst (close_popup_tabs e keep d) = Some x"
  show ?thesis
  proof (cases "handles_err e")
    case (Some y)
    with a show ?thesis by (simp add: close_popup_tabs_def window_handles_def)
  next
    case None
    let ?d1 = "log_call WindowHandles d"
    obtain r2 d2 where ce: "close_each e keep (handles d) ?d1 = (r2, d2)"
      by (cases "close_each e keep (handles d) ?d1")
    show ?thesis
    proof (cases r2)
      case (Some y)
      with a None ce have "y = x" by (simp add: close_popup_tabs_def window_handles_def)
      with Some ce close_each_raises [of e keep "handles d" ?d1 x] show ?thesis by simp
    next
      case r2: None
      obtain r3 d3 where sw: "switch_to_window e keep d2 = (r3, d3)"
        by (cases "switch_to_window e keep d2")
      with a None ce r2 show ?thesis
        by (cases r3) (auto simp: close_popup_tabs_def window_handles_def split: if_splits)
    qed
  qed
qed

lemma new_calls_none:
  "extends P d d' \<Longrightarrow> \<not> P c \<Longrightarrow> c \<notin> set (new_calls d d')"
  by (auto dest!: extends_new_calls simp: list_all_iff)

lemma new_calls_all:
  "extends P d d' \<Longrightarrow> c \<in> set (new_calls d d') \<Longrightarrow> P c"
  by (auto dest!: extends_new_calls simp: list_all_iff)


lemma process_link_not_found:
  assumes web: "web e url = Inr p"
    and miss: "\<forall>s\<in>set DOWNLOAD_BUTTON_SELECTORS. probe p s = Miss"
    and en: "handles_err e = None"
    and sw_all: "\<forall>h x. switch_err e h = Some x \<longrightarrow> is_WebDriverException x"
    and cl_all: "\<forall>h x. close_err e h = Some x \<longrightarrow> is_WebDriverException x"
    and src: "source p = Inr text"
    and valid: "\<not> (\<exists>phrase\<in>set INVALID_PAGE_TEXTS. occurs_ci phrase text)"
    and wait: "wait_primary p = None \<or> (\<exists>m s. wait_primary p = Some (TimeoutException m s))"
  shows "fst (process_link e url keep d) = Inr (False, ''Download button not found on page'')"
proof -
  let ?d1 = "snd (driver_get e url d)"
  let ?d2 = "snd (close_popup_tabs e keep ?d1)"
  let ?d3 = "snd (is_page_invalid ?d2)"
  let ?sel = "DOWNLOAD_BUTTON_SELECTORS ! 0"
  let ?d4 = "snd (pass_TimeoutException (wait_presence ?sel ?d3))"
  have p1: "page ?d1 = p" using web by (simp add: driver_get_def log_call_def)
  have "fst (close_popup_tabs e keep ?d1) = None"
    using en sw_all cl_all by (rule close_popup_tabs_swallows(1))
  then have c: "close_popup_tabs e keep ?d1 = (None, ?d2)" by (simp add: prod_eq_iff)
  have p2: "page ?d2 = p" using p1 by (simp add: close_popup_tabs_page)
  with src have "fst (is_page_invalid ?d2) = Inr (\<exists>phrase\<in>set INVALID_PAGE_TEXTS. occurs_ci phrase text)"
    by (intro is_page_invalid_text) simp
  with valid have i: "is_page_invalid ?d2 = (Inr False, ?d3)" by (simp add: prod_eq_iff)
  have p3: "page ?d3 = p" using p2 by (simp add: is_page_invalid_page)
  have "fst (pass_TimeoutException (wait_presence ?sel ?d3)) = None"
    using wait p3 by (auto simp: wait_presence_def)
  then have w: "pass_TimeoutException (wait_presence ?sel ?d3) = (None, ?d4)"
    by (simp add: prod_eq_iff)
  from process_link_no_button(3) [OF web miss c i w] show ?thesis by simp
qed


lemma lower_char_y: "lower_char c = CHR ''y'' \<longleftrightarrow> c = CHR ''y'' \<or> c = CHR ''Y''"
proof
  assume a: "lower_char c = CHR ''y''"
  let ?n = "of_char c :: nat"
  show "c = CHR ''y'' \<or> c = CHR ''Y''"
  proof (cases "(65 \<le> ?n \<and> ?n \<le> 90) \<or> (192 \<le> ?n \<and> ?n \<le> 222 \<and> ?n \<noteq> 215)")
    case True
    with a have "char_of (?n + 32) = CHR ''y''" by (simp add: lower_char_def)
    then have "(of_char (char_of (?n + 32)) :: nat) = of_char (CHR ''y'')" by simp
    then have "(?n + 32) mod 256 = 121" by simp
    with True have "?n = 89" by auto
    then have "char_of ?n = (char_of (89 :: nat) :: char)" by simp
    moreover have "(char_of (89 :: nat) :: char) = CHR ''Y''" by code_simp
    ultimately show ?thesis by simp
  next
    case False
    with a show ?thesis by (simp add: lower_char_def)
  qed
next
  assume "c = CHR ''y'' \<or> c = CHR ''Y''"
  moreover have "lower_char (CHR ''y'') = CHR ''y''" "lower_char (CHR ''Y'') = CHR ''y''"
    by code_simp+
  ultimately show "lower_char c = CHR ''y''" by auto
qed

lemma strip_unique:
  assumes pre: "\<forall>a\<in>set pre. isspace a" and post: "\<forall>a\<in>set post. isspace a"
    and u: "u \<noteq> []" "\<not> isspace (hd u)" "\<not> isspace (last u)"
  shows "strip (pre @ u @ post) = u"
proof -
  from u obtain a u' where ua: "u = a # u'" "\<not> isspace a" by (cases u) auto
  have 1: "dropWhile isspace (pre @ u @ post) = u @ post"
    using pre ua by (simp add: dropWhile_append2)
  from u have "rev u \<noteq> []" "hd (rev u) = last u" by (simp_all add: hd_rev)
  with u obtain b w where ub: "rev u = b # w" "\<not> isspace b" by (cases "rev u") auto
  have "dropWhile isspace (rev (u @ post)) = dropWhile isspace (rev post @ rev u)" by simp
  also have "\<dots> = dropWhile isspace (rev u)" using post by (intro dropWhile_append2) auto
  also have "\<dots> = rev u" using ub by simp
  finally have "rev (dropWhile isspace (rev (u @ post))) = u" by simp
  with 1 show ?thesis by (simp add: strip_def)
qed

lemma affirmative_iff:
  "affirmative line \<longleftrightarrow>
     (\<exists>pre c post. line = pre @ c # post \<and> (c = CHR ''y'' \<or> c = CHR ''Y'') \<and>
        (\<forall>a\<in>set pre. isspace a) \<and> (\<forall>a\<in>set post. isspace a))"
proof
  assume "affirmative line"
  then have "map lower_char (strip line) = [CHR ''y'']" by (simp add: affirmative_def lower_def)
  then obtain c where c: "strip line = [c]" "lower_char c = CHR ''y''"
    by (cases "strip line") auto
  from strip_decomp [of line] c(1) obtain pre post where
    "line = pre @ c # post" "\<forall>a\<in>set pre. isspace a" "\<forall>a\<in>set post. isspace a" by auto
  with c(2) show "\<exists>pre c post. line = pre @ c # post \<and> (c = CHR ''y'' \<or> c = CHR ''Y'') \<and>
        (\<forall>a\<in>set pre. isspace a) \<and> (\<forall>a\<in>set post. isspace a)"
    by (auto simp: lower_char_y)
next
  assume "\<exists>pre c post. line = pre @ c # post \<and> (c = CHR ''y'' \<or> c = CHR ''Y'') \<and>
        (\<forall>a\<in>set pre. isspace a) \<and> (\<forall>a\<in>set post. isspace a)"
  then obtain pre c post where l: "line = pre @ [c] @ post" and c: "c = CHR ''y'' \<or> c = CHR ''Y''"
    and ws: "\<forall>a\<in>set pre. isspace a" "\<forall>a\<in>set post. isspace a" by auto
  from c have "\<not> isspace c" by (auto simp: isspace_def)
  with ws have "strip (pre @ [c] @ post) = [c]" by (intro strip_unique) simp_all
  with l c show "affirmative line" by (auto simp: affirmative_def lower_def lower_char_y)
qed

lemma finish_ending:
  "ending (finish e path n s) = Returned \<or> (\<exists>x. ending (finish e path n s) = Uncaught x)"
  by (auto simp: finish_def split: prod.splits option.splits)

lemma finish_summary:
  "summary (finish e path n s) = Some rep \<Longrightarrow>
     ending (finish e path n s) = Returned \<and> total rep = n \<and> processed rep = outcome_count s \<and>
     processed rep = successful rep + failed_count rep \<and> failures rep = failed_links s \<and>
     successful rep = success_count s"
  by (auto simp: finish_def outcome_count_def split: prod.splits option.splits)

lemma finish_Returned:
  "ending (finish e path n s) = Returned \<Longrightarrow> summary (finish e path n s) \<noteq> None"
  by (auto simp: finish_def split: prod.splits option.splits)

lemma run_links_count:
  assumes run: "run_links e mh (links_of raw) s = (r, s')" and zero: "outcome_count s = 0"
  shows "r = None \<longrightarrow> outcome_count s' = length (filter (\<lambda>line. strip line \<noteq> []) raw)"
    and "r \<noteq> None \<longrightarrow> 1 \<le> idx s' \<and> idx s' \<le> length (filter (\<lambda>line. strip line \<noteq> []) raw) \<and>
           outcome_count s' = idx s' - 1 + (if at_prompt (stdout (con s')) then 1 else 0)"
    and "outcome_count s' \<le> length (filter (\<lambda>line. strip line \<noteq> []) raw)"
proof -
  let ?items = "enumerate 1 (links_of raw)"
  let ?n = "length (filter (\<lambda>line. strip line \<noteq> []) raw)"
  have len: "length ?items = ?n" by (simp add: length_links_of)
  from run have loop: "link_loop e mh (length (links_of raw)) ?items s = (r, s')"
    by (simp add: run_links_def)
  note L = link_loop_count [OF loop]
  show 1: "r = None \<longrightarrow> outcome_count s' = ?n" using L zero len by simp
  show 2: "r \<noteq> None \<longrightarrow> 1 \<le> idx s' \<and> idx s' \<le> ?n \<and>
           outcome_count s' = idx s' - 1 + (if at_prompt (stdout (con s')) then 1 else 0)"
  proof
    assume "r \<noteq> None"
    with L obtain j where j: "j < length ?items" "idx s' = fst (?items ! j)"
      "outcome_count s' = outcome_count s + j + (if at_prompt (stdout (con s')) then 1 else 0)"
      by auto
    from j(1,2) have "idx s' = 1 + j" by (simp add: nth_enumerate_eq)
    with j zero len show "1 \<le> idx s' \<and> idx s' \<le> ?n \<and>
           outcome_count s' = idx s' - 1 + (if at_prompt (stdout (con s')) then 1 else 0)"
      by simp
  qed
  show "outcome_count s' \<le> ?n" using 1 2 by (cases r) (auto split: if_splits)
qed

lemma run_links_no_quit:
  assumes run: "run_links e mh links s = (r, s')" and q: "Quit \<notin> set (calls (drv s))"
  shows "Quit \<notin> set (calls (drv s'))"
proof -
  let ?items = "enumerate 1 links"
  from run have loop: "link_loop e mh (length links) ?items s = (r, s')"
    by (simp add: run_links_def)
  from link_loop_extends [OF loop] obtain cs where
    cs: "calls (drv s') = calls (drv s) @ cs" "list_all (loop_call (set (map (snd \<circ> snd) ?items)) mh) cs"
    by (auto simp: extends_def)
  from cs(2) have "Quit \<notin> set cs" by (auto simp: list_all_iff)
  with cs(1) q show ?thesis by simp
qed

lemma run_links_stdin:
  "run_links e mh links s = (r, s') \<Longrightarrow> set (stdin (con s')) \<subseteq> set (stdin (con s))"
  by (auto simp: run_links_def dest!: link_loop_stdin)


text \<open>The console after the path has been resolved.\<close>

lemma resolve_path:
  assumes "links_file_of arg events = Some path"
  obtains c1 where
    "(if arg = None \<or> arg = Some []
      then (case input PromptPath \<lparr>stdin = events, stdout = []\<rparr> of
              (Inl x, c) \<Rightarrow> (Inl x, c)
            | (Inr line, c) \<Rightarrow> (Inr (strip line), c))
      else (Inr (the arg), \<lparr>stdin = events, stdout = []\<rparr>)) = (Inr path, c1)"
    "set (stdin c1) \<subseteq> set events"
  using assms
  by (auto simp: links_file_of_def input_def emit_def split: if_splits list.splits con_event.splits)

lemma resolve_none:
  assumes "links_file_of arg events = None"
  obtains x c1 where
    "(if arg = None \<or> arg = Some []
      then (case input PromptPath \<lparr>stdin = events, stdout = []\<rparr> of
              (Inl x, c) \<Rightarrow> (Inl x, c)
            | (Inr line, c) \<Rightarrow> (Inr (strip line), c))
      else (Inr (the arg), \<lparr>stdin = events, stdout = []\<rparr>)) = (Inl x, c1)"
  using assms
  by (auto simp: links_file_of_def input_def emit_def split: if_splits list.splits con_event.splits)

lemma main_unresolved:
  "links_file_of arg events = None \<Longrightarrow>
     browser (main e arg events) = None \<and> summary (main e arg events) = None \<and>
     (\<exists>x. ending (main e arg events) = Uncaught x)"
  by (erule resolve_none) (simp add: main_def)

lemma main_resolved:
  assumes "links_file_of arg events = Some path"
  obtains c1 where "set (stdin c1) \<subseteq> set events"
    "\<And>e. main e arg events =
     (case fs e path of
        Absent \<Rightarrow>
          \<lparr>ending = Exited 1, browser = None,
           terminal = emit (ErrorFileNotFound path) c1, summary = None\<rparr>
      | Directory \<Rightarrow>
          \<lparr>ending = Exited 1, browser = None,
           terminal = emit (ErrorFileNotFound path) c1, summary = None\<rparr>
      | RegularFile (Inl x) \<Rightarrow>
          \<lparr>ending = Uncaught x, browser = None, terminal = c1, summary = None\<rparr>
      | RegularFile (Inr raw_lines) \<Rightarrow>
          if length (links_of raw_lines) = 0
          then \<lparr>ending = Exited 0, browser = None,
                terminal = emit WarnNoLinks c1, summary = None\<rparr>
          else
            (case launch e of
               Inl x \<Rightarrow>
                 \<lparr>ending = Uncaught x, browser = None, terminal = c1, summary = None\<rparr>
             | Inr main_handle \<Rightarrow>
                 (case run_links e main_handle (links_of raw_lines)
                         \<lparr>drv = \<lparr>handles = [main_handle], focus = main_handle,
                                 page = blank_page, calls = []\<rparr>,
                          con = c1, idx = 0, success_count = 0, failed_links = []\<rparr> of
                    (None, s) \<Rightarrow> finish e path (length (links_of raw_lines)) s
                  | (Some x, s) \<Rightarrow>
                      if x = KeyboardInterrupt
                      then finish e path (length (links_of raw_lines))
                             (s\<lparr>con := emit WarnInterrupted (con s)\<rparr>)
                      else \<lparr>ending = Uncaught x, browser = Some (drv s),
                            terminal = con s, summary = None\<rparr>)))"
proof -
  from assms obtain c1 where c1:
    "(if arg = None \<or> arg = Some []
      then (case input PromptPath \<lparr>stdin = events, stdout = []\<rparr> of
              (Inl x, c) \<Rightarrow> (Inl x, c)
            | (Inr line, c) \<Rightarrow> (Inr (strip line), c))
      else (Inr (the arg), \<lparr>stdin = events, stdout = []\<rparr>)) = (Inr path, c1)"
    "set (stdin c1) \<subseteq> set events"
    by (rule resolve_path)
  show ?thesis
  proof (rule that [of c1])
    show "set (stdin c1) \<subseteq> set events" by (rule c1(2))
  next
    fix e
    show "main e arg events =
     (case fs e path of
        Absent \<Rightarrow>
          \<lparr>ending = Exited 1, browser = None,
           terminal = emit (ErrorFileNotFound path) c1, summary = None\<rparr>
      | Directory \<Rightarrow>
          \<lparr>ending = Exited 1, browser = None,
           terminal = emit (ErrorFileNotFound path) c1, summary = None\<rparr>
      | RegularFile (Inl x) \<Rightarrow>
          \<lparr>ending = Uncaught x, browser = None, terminal = c1, summary = None\<rparr>
      | RegularFile (Inr raw_lines) \<Rightarrow>
          if length (links_of raw_lines) = 0
          then \<lparr>ending = Exited 0, browser = None,
                terminal = emit WarnNoLinks c1, summary = None\<rparr>
          else
            (case launch e of
               Inl x \<Rightarrow>
                 \<lparr>ending = Uncaught x, browser = None, terminal = c1, summary = None\<rparr>
             | Inr main_handle \<Rightarrow>
                 (case run_links e main_handle (links_of raw_lines)
                         \<lparr>drv = \<lparr>handles = [main_handle], focus = main_handle,
                                 page = blank_page, calls = []\<rparr>,
                          con = c1, idx = 0, success_count = 0, failed_links = []\<rparr> of
                    (None, s) \<Rightarrow> finish e path (length (links_of raw_lines)) s
                  | (Some x, s) \<Rightarrow>
                      if x = KeyboardInterrupt
                      then finish e path (length (links_of raw_lines))
                             (s\<lparr>con := emit WarnInterrupted (con s)\<rparr>)
                      else \<lparr>ending = Uncaught x, browser = Some (drv s),
                            terminal = con s, summary = None\<rparr>)))"
      unfolding main_def Let_def c1(1)
      by (simp split: fs_entry.splits sum.splits)
  qed
qed

lemma main_not_file:
  assumes "links_file_of arg events = Some path" and "fs e path = Absent \<or> fs e path = Directory"
  shows "ending (main e arg events) = Exited 1" and "browser (main e arg events) = None"
    and "summary (main e arg events) = None"
  using assms(2) by (auto intro: main_resolved [OF assms(1)])

lemma main_unreadable:
  assumes "links_file_of arg events = Some path" and "fs e path = RegularFile (Inl x)"
  shows "ending (main e arg events) = Uncaught x" and "browser (main e arg events) = None"
    and "summary (main e arg events) = None"
  using assms(2) by (auto intro: main_resolved [OF assms(1)])

lemma main_no_links:
  assumes "links_file_of arg events = Some path" and "fs e path = RegularFile (Inr raw)"
    and "links_of raw = []"
  shows "ending (main e arg events) = Exited 0" and "browser (main e arg events) = None"
    and "summary (main e arg events) = None"
    and "last (stdout (terminal (main e arg events))) = WarnNoLinks"
  using assms(2,3) by (auto intro: main_resolved [OF assms(1)] simp: emit_def)

lemma main_with_links [consumes 3, case_names no_launch finished crashed]:
  assumes res: "links_file_of arg events = Some path" and isfile: "fs e path = RegularFile (Inr raw)"
    and some: "links_of raw \<noteq> []"
  obtains (no_launch) x where "launch e = Inl x" "ending (main e arg events) = Uncaught x"
      "browser (main e arg events) = None" "summary (main e arg events) = None"
  | (finished) mh s0 r s where "launch e = Inr mh"
      "calls (drv s0) = []" "outcome_count s0 = 0" "set (stdin (con s0)) \<subseteq> set events"
      "run_links e mh (links_of raw) s0 = (r, s)"
      "r = None \<or> r = Some KeyboardInterrupt"
      "main e arg events = finish e path (length (links_of raw))
         (if r = None then s else s\<lparr>con := emit WarnInterrupted (con s)\<rparr>)"
  | (crashed) mh s0 x s where "launch e = Inr mh"
      "calls (drv s0) = []" "outcome_count s0 = 0" "set (stdin (con s0)) \<subseteq> set events"
      "run_links e mh (links_of raw) s0 = (Some x, s)" "x \<noteq> KeyboardInterrupt"
      "ending (main e arg events) = Uncaught x" "browser (main e arg events) = Some (drv s)"
      "summary (main e arg events) = None"
proof -
  from res obtain c1 where c1: "set (stdin c1) \<subseteq> set events"
    and mm: "main e arg events =
      (case launch e of
         Inl x \<Rightarrow>
           \<lparr>ending = Uncaught x, browser = None, terminal = c1, summary = None\<rparr>
       | Inr main_handle \<Rightarrow>
           (case run_links e main_handle (links_of raw)
                   \<lparr>drv = \<lparr>handles = [main_handle], focus = main_handle,
                           page = blank_page, calls = []\<rparr>,
                    con = c1, idx = 0, success_count = 0, failed_links = []\<rparr> of
              (None, s) \<Rightarrow> finish e path (length (links_of raw)) s
            | (Some x, s) \<Rightarrow>
                if x = KeyboardInterrupt
                then finish e path (length (links_of raw))
                       (s\<lparr>con := emit WarnInterrupted (con s)\<rparr>)
                else \<lparr>ending = Uncaught x, browser = Some (drv s),
                      terminal = con s, summary = None\<rparr>))"
    using isfile some by (auto intro: main_resolved [OF res])
  show ?thesis
  proof (cases "launch e")
    case (Inl x)
    with mm show ?thesis by (intro no_launch [of x]) simp_all
  next
    case (Inr mh)
    let ?d0 = "\<lparr>handles = [mh], focus = mh, page = blank_page, calls = []\<rparr>"
    let ?s0 = "\<lparr>drv = ?d0, con = c1, idx = 0, success_count = 0, failed_links = []\<rparr>"
    obtain r s where run: "run_links e mh (links_of raw) ?s0 = (r, s)"
      by (cases "run_links e mh (links_of raw) ?s0")
    have m: "main e arg events =
        (case r of None \<Rightarrow> finish e path (length (links_of raw)) s
         | Some x \<Rightarrow> if x = KeyboardInterrupt
             then finish e path (length (links_of raw)) (s\<lparr>con := emit WarnInterrupted (con s)\<rparr>)
             else \<lparr>ending = Uncaught x, browser = Some (drv s), terminal = con s, summary = None\<rparr>)"
      using mm Inr run by simp
    show ?thesis
    proof (cases "r = None \<or> r = Some KeyboardInterrupt")
      case True
      show ?thesis
      proof (rule finished)
        show "launch e = Inr mh" by (rule Inr)
        show "run_links e mh (links_of raw) ?s0 = (r, s)" by (rule run)
        show "r = None \<or> r = Some KeyboardInterrupt" by (rule True)
        show "main e arg events = finish e path (length (links_of raw))
           (if r = None then s else s\<lparr>con := emit WarnInterrupted (con s)\<rparr>)"
          using m True by auto
        show "set (stdin (con ?s0)) \<subseteq> set events" using c1 by simp
      qed (simp_all add: outcome_count_def)
    next
      case False
      then obtain x where x: "r = Some x" "x \<noteq> KeyboardInterrupt" by (cases r) auto
      show ?thesis
      proof (rule crashed)
        show "launch e = Inr mh" by (rule Inr)
        show "run_links e mh (links_of raw) ?s0 = (Some x, s)" using run x by simp
        show "x \<noteq> KeyboardInterrupt" by (rule x(2))
        show "set (stdin (con ?s0)) \<subseteq> set events" using c1 by simp
      qed (simp_all add: outcome_count_def m x)
    qed
  qed
qed


lemma main_exit_zero:
  assumes res: "links_file_of arg events = Some path"
  shows "exit_code (ending (main e arg events)) = 0 \<longleftrightarrow>
     (\<exists>raw. fs e path = RegularFile (Inr raw) \<and>
        (links_of raw = [] \<or> ending (main e arg events) = Returned))"
proof (cases "fs e path")
  case Absent
  with main_not_file(1) [OF res, of e] show ?thesis by simp
next
  case Directory
  with main_not_file(1) [OF res, of e] show ?thesis by simp
next
  case (RegularFile content)
  show ?thesis
  proof (cases content)
    case (Inl x)
    with RegularFile main_unreadable(1) [OF res, of e x] show ?thesis by simp
  next
    case (Inr raw)
    show ?thesis
    proof (cases "links_of raw = []")
      case True
      with RegularFile Inr main_no_links(1) [OF res, of e raw] show ?thesis by simp
    next
      case False
      from res RegularFile Inr False have f: "fs e path = RegularFile (Inr raw)" by simp
      from res f False show ?thesis
      proof (cases rule: main_with_links)
        case (no_launch x)
        with f False show ?thesis by simp
      next
        case (finished mh s0 r s)
        from finish_ending [of e path "length (links_of raw)"
            "if r = None then s else s\<lparr>con := emit WarnInterrupted (con s)\<rparr>"] finished(7) f False
        show ?thesis by (auto split: if_splits)
      next
        case (crashed mh s0 x s)
        with f False show ?thesis by simp
      qed
    qed
  qed
qed

lemma main_Returned:
  assumes res: "links_file_of arg events = Some path"
    and ret: "ending (main e arg events) = Returned"
  shows "summary (main e arg events) \<noteq> None"
proof (cases "fs e path")
  case Absent
  with main_not_file(1) [OF res, of e] ret show ?thesis by simp
next
  case Directory
  with main_not_file(1) [OF res, of e] ret show ?thesis by simp
next
  case (RegularFile content)
  show ?thesis
  proof (cases content)
    case (Inl x)
    with RegularFile main_unreadable(1) [OF res, of e x] ret show ?thesis by simp
  next
    case (Inr raw)
    show ?thesis
    proof (cases "links_of raw = []")
      case True
      with RegularFile Inr main_no_links(1) [OF res, of e raw] ret show ?thesis by simp
    next
      case False
      from res RegularFile Inr False have f: "fs e path = RegularFile (Inr raw)" by simp
      from res f False show ?thesis
      proof (cases rule: main_with_links)
        case (no_launch x)
        with ret show ?thesis by simp
      next
        case (finished mh s0 r s)
        with ret finish_Returned [of e path "length (links_of raw)"
            "if r = None then s else s\<lparr>con := emit WarnInterrupted (con s)\<rparr>"]
        show ?thesis by simp
      next
        case (crashed mh s0 x s)
        with ret show ?thesis by simp
      qed
    qed
  qed
qed

lemma main_quit:
  assumes b: "browser (main e arg events) = Some d" and q: "Quit \<in> set (calls d)"
  shows "\<exists>answer. Typed answer \<in> set events \<and> affirmative answer"
proof (cases "links_file_of arg events")
  case None
  with main_unresolved [of arg events e] b show ?thesis by simp
next
  case (Some path)
  note res = Some
  show ?thesis
  proof (cases "fs e path")
    case Absent
    with main_not_file(2) [OF res, of e] b show ?thesis by simp
  next
    case Directory
    with main_not_file(2) [OF res, of e] b show ?thesis by simp
  next
    case (RegularFile content)
    show ?thesis
    proof (cases content)
      case (Inl x)
      with RegularFile main_unreadable(2) [OF res, of e x] b show ?thesis by simp
    next
      case (Inr raw)
      show ?thesis
      proof (cases "links_of raw = []")
        case True
        with RegularFile Inr main_no_links(2) [OF res, of e raw] b show ?thesis by simp
      next
        case False
        from res RegularFile Inr False have f: "fs e path = RegularFile (Inr raw)" by simp
        from res f False show ?thesis
        proof (cases rule: main_with_links)
          case (no_launch x)
          with b show ?thesis by simp
        next
          case (finished mh s0 r s)
          let ?s = "if r = None then s else s\<lparr>con := emit WarnInterrupted (con s)\<rparr>"
          from finished(2) have "Quit \<notin> set (calls (drv s0))" by simp
          with finished(5) have nq: "Quit \<notin> set (calls (drv s))" by (rule run_links_no_quit)
          then have "Quit \<notin> set (calls (drv ?s))" by simp
          from finish_quit [OF this, of e path "length (links_of raw)"] b q finished(7)
          have "fst (shutdown_prompt (stdin (con ?s)) (stdout (con ?s))) = None" by auto
          then obtain pre answer post where
            "stdin (con ?s) = map Typed pre @ Typed answer # post" "affirmative answer"
            unfolding shutdown_prompt_None_iff by blast
          then have "Typed answer \<in> set (stdin (con ?s))" "affirmative answer" by simp_all
          moreover have "set (stdin (con ?s)) \<subseteq> set (stdin (con s0))"
            using run_links_stdin [OF finished(5)] by (simp add: emit_def)
          ultimately show ?thesis using finished(4) by blast
        next
          case (crashed mh s0 x s)
          from crashed(2) have "Quit \<notin> set (calls (drv s0))" by simp
          with crashed(5) have "Quit \<notin> set (calls (drv s))" by (rule run_links_no_quit)
          with crashed(8) b q show ?thesis by simp
        qed
      qed
    qed
  qed
qed


lemma links_of_Nil_iff:
  "links_of raw = [] \<longleftrightarrow> length (filter (\<lambda>line. strip line \<noteq> []) raw) = 0"
  using length_links_of [of raw] by (metis length_0_conv)


lemma first_probe_Raised_iff:
  "first_probe p sels = Inl x \<longleftrightarrow>
     (\<exists>pre s post. sels = pre @ s # post \<and> (\<forall>t\<in>set pre. probe p t = Miss) \<and> probe p s = Raised x)"
proof (induction sels)
  case Nil
  show ?case by simp
next
  case (Cons a sels)
  let ?R = "\<lambda>l. \<exists>pre s post. l = pre @ s # post \<and> (\<forall>t\<in>set pre. probe p t = Miss) \<and> probe p s = Raised x"
  have head: "?R (a # sels) \<longleftrightarrow> probe p a = Raised x \<or> (probe p a = Miss \<and> ?R sels)"
  proof
    assume "?R (a # sels)"
    then obtain pre s post where eq: "a # sels = pre @ s # post"
      and miss: "\<forall>t\<in>set pre. probe p t = Miss" and r: "probe p s = Raised x" by blast
    show "probe p a = Raised x \<or> (probe p a = Miss \<and> ?R sels)"
    proof (cases pre)
      case Nil
      with eq r show ?thesis by simp
    next
      case (Cons a' pre')
      with eq miss have "probe p a = Miss" "sels = pre' @ s # post" "\<forall>t\<in>set pre'. probe p t = Miss"
        by simp_all
      with r show ?thesis by blast
    qed
  next
    assume "probe p a = Raised x \<or> (probe p a = Miss \<and> ?R sels)"
    then show "?R (a # sels)"
    proof
      assume "probe p a = Raised x"
      then have "a # sels = [] @ a # sels \<and> (\<forall>t\<in>set []. probe p t = Miss) \<and> probe p a = Raised x"
        by simp
      then show ?thesis by blast
    next
      assume "probe p a = Miss \<and> ?R sels"
      then obtain pre s post where m: "probe p a = Miss" and eq: "sels = pre @ s # post"
        and miss: "\<forall>t\<in>set pre. probe p t = Miss" and r: "probe p s = Raised x" by blast
      then have "a # sels = (a # pre) @ s # post \<and> (\<forall>t\<in>set (a # pre). probe p t = Miss)"
        by simp
      with r show ?thesis by blast
    qed
  qed
  show ?case unfolding head using Cons.IH by (cases "probe p a") auto
qed

lemma first_probe_not_visible:
  "\<forall>s\<in>set sels. \<not> is_Visible (probe p s) \<Longrightarrow> first_probe p sels \<noteq> Inr (Some b)"
  by (induction sels) (auto split: probe.splits)


lemma find_download_button_first_probe:
  "fst (find_download_button d) = first_probe (page d) DOWNLOAD_BUTTON_SELECTORS"
  by (simp add: find_download_button_def try_selectors_first_probe)

lemma process_link_not_visible:
  assumes web: "web e url = Inr p"
    and nv: "\<forall>s\<in>set DOWNLOAD_BUTTON_SELECTORS. \<not> is_Visible (probe p s)"
  shows "extends (\<lambda>c. \<not> click_call c) d (snd (process_link e url keep d))"
    and "fst (process_link e url keep d) \<noteq> Inr (True, reason)"
    and "handles_err e = None \<Longrightarrow>
         \<forall>h x. switch_err e h = Some x \<longrightarrow> is_WebDriverException x \<Longrightarrow>
         \<forall>h x. close_err e h = Some x \<longrightarrow> is_WebDriverException x \<Longrightarrow>
         source p = Inr txt \<Longrightarrow>
         \<not> (\<exists>phrase\<in>set INVALID_PAGE_TEXTS. occurs_ci phrase txt) \<Longrightarrow>
         wait_primary p = None \<or> (\<exists>m s. wait_primary p = Some (TimeoutException m s)) \<Longrightarrow>
         fst (process_link e url keep d) =
           (case first_probe p DOWNLOAD_BUTTON_SELECTORS of
              Inl x \<Rightarrow> Inl x
            | Inr b \<Rightarrow> Inr (False, ''Download button not found on page''))"
proof -
  let ?P = "\<lambda>c. \<not> click_call c"
  have P: "?P (Get url)" "\<And>c. reap_call keep c \<Longrightarrow> ?P c" "?P PageSource"
    "\<And>s. ?P (WaitPresence s)" "\<And>s. ?P (FindElement s)" "\<And>b. ?P (IsDisplayed b)"
    by (auto dest: reap_call_not_control click_call_control)
  obtain d1 where g: "driver_get e url d = (None, d1)" and p1: "page d1 = p"
    using web by (auto simp: driver_get_def log_call_def)
  have e1: "extends ?P d d1" using g by (intro step_get) simp
  obtain r2 d2 where c: "close_popup_tabs e keep d1 = (r2, d2)" by (cases "close_popup_tabs e keep d1")
  from e1 step_reap [where P = "\<lambda>c. \<not> click_call c", OF P(2) c]
  have e2: "extends ?P d d2" by (rule extends_trans)
  have p2: "page d2 = p" using close_popup_tabs_page [of e keep d1] c p1 by simp
  obtain r3 d3 where i: "is_page_invalid d2 = (r3, d3)" by (cases "is_page_invalid d2")
  from e2 step_invalid [where P = "\<lambda>c. \<not> click_call c", OF P(3) i]
  have e3: "extends ?P d d3" by (rule extends_trans)
  have p3: "page d3 = p" using is_page_invalid_page [of d2] i p2 by simp
  obtain r4 d4 where w: "pass_TimeoutException (wait_presence (DOWNLOAD_BUTTON_SELECTORS ! 0) d3) = (r4, d4)"
    by (cases "pass_TimeoutException (wait_presence (DOWNLOAD_BUTTON_SELECTORS ! 0) d3)")
  from e3 step_wait [where P = "\<lambda>c. \<not> click_call c", OF P(4) w]
  have e4: "extends ?P d d4" by (rule extends_trans)
  have p4: "page d4 = p" using wait_page [of "DOWNLOAD_BUTTON_SELECTORS ! 0" d3] w p3 by simp
  obtain r5 d5 where f: "find_download_button d4 = (r5, d5)" by (cases "find_download_button d4")
  from e4 step_find [where P = "\<lambda>c. \<not> click_call c", OF P(5) P(6) f]
  have e5: "extends ?P d d5" by (rule extends_trans)
  have r5: "r5 = first_probe p DOWNLOAD_BUTTON_SELECTORS"
    using find_download_button_first_probe [of d4] f p4 by simp
  have no: "r5 \<noteq> Inr (Some b)" for b
    using first_probe_not_visible [OF nv, of b] r5 by simp
  show "extends ?P d (snd (process_link e url keep d))"
    using g c i w f no e1 e2 e3 e4 e5
    by (auto simp: process_link_def split: sum.splits bool.splits option.splits prod.splits)
  show "fst (process_link e url keep d) \<noteq> Inr (True, reason)"
    using g c i w f no
    by (auto simp: process_link_def split: sum.splits bool.splits option.splits prod.splits)
  show "fst (process_link e url keep d) =
           (case first_probe p DOWNLOAD_BUTTON_SELECTORS of
              Inl x \<Rightarrow> Inl x
            | Inr b \<Rightarrow> Inr (False, ''Download button not found on page''))"
    if en: "handles_err e = None"
      and sw_all: "\<forall>h x. switch_err e h = Some x \<longrightarrow> is_WebDriverException x"
      and cl_all: "\<forall>h x. close_err e h = Some x \<longrightarrow> is_WebDriverException x"
      and src: "source p = Inr txt"
      and valid: "\<not> (\<exists>phrase\<in>set INVALID_PAGE_TEXTS. occurs_ci phrase txt)"
      and wait: "wait_primary p = None \<or> (\<exists>m s. wait_primary p = Some (TimeoutException m s))"
  proof -
    have "fst (close_popup_tabs e keep d1) = None"
      using en sw_all cl_all by (rule close_popup_tabs_swallows(1))
    with c have r2: "r2 = None" by simp
    from src p2 have "fst (is_page_invalid d2) = Inr (\<exists>phrase\<in>set INVALID_PAGE_TEXTS. occurs_ci phrase txt)"
      by (intro is_page_invalid_text) simp
    with valid i have r3: "r3 = Inr False" by simp
    have "fst (pass_TimeoutException (wait_presence (DOWNLOAD_BUTTON_SELECTORS ! 0) d3)) = None"
      using wait p3 by (auto simp: wait_presence_def)
    with w have r4: "r4 = None" by simp
    from g c r2 i r3 w r4 f no r5 show ?thesis
      by (auto simp: process_link_def split: sum.splits option.splits)
  qed
qed


section \<open>The claims\<close>

subsection \<open>C6: which pages are flagged invalid\<close>

text \<open>
  C6. For every page text the driver returns as the page source, \<open>is_page_invalid\<close>
  returns true if and only if at least one of the phrases "invalid or deleted", "file
  not found", "this file has been deleted", "unavailable", "error occurred" occurs in
  the text without regard to case. The text scanned is \<open>driver.page_source\<close>.
\<close>

theorem is_page_invalid_iff_phrase:
  "source (page d) = Inr text \<Longrightarrow>
     fst (is_page_invalid d) =
       Inr (occurs_ci ''invalid or deleted'' text \<or>
            occurs_ci ''file not found'' text \<or>
            occurs_ci ''this file has been deleted'' text \<or>
            occurs_ci ''unavailable'' text \<or>
            occurs_ci ''error occurred'' text)"
  by (simp add: is_page_invalid_text) (simp add: INVALID_PAGE_TEXTS_def)

theorem is_page_invalid_iff_phrase_witness:
  "fst (is_page_invalid (ex_driver\<lparr>page := ex_deleted_page\<rparr>)) = Inr True \<and>
   (occurs_ci ''invalid or deleted'' ''<html><p>File Not Found.</p></html>'' \<or>
    occurs_ci ''file not found'' ''<html><p>File Not Found.</p></html>'' \<or>
    occurs_ci ''this file has been deleted'' ''<html><p>File Not Found.</p></html>'' \<or>
    occurs_ci ''unavailable'' ''<html><p>File Not Found.</p></html>'' \<or>
    occurs_ci ''error occurred'' ''<html><p>File Not Found.</p></html>'')"
proof -
  have src: "source (page (ex_driver\<lparr>page := ex_deleted_page\<rparr>)) =
      Inr ''<html><p>File Not Found.</p></html>''"
    by (simp add: ex_deleted_page_def)
  have low: "lower ''<html><p>File Not Found.</p></html>'' = ''<html><p>file not found.</p></html>''"
    by code_simp
  have run: "fst (is_page_invalid (ex_driver\<lparr>page := ex_deleted_page\<rparr>)) = Inr True"
    by (simp add: is_page_invalid_def INVALID_PAGE_TEXTS_def page_source_def log_call_def
        ex_deleted_page_def low)
  from is_page_invalid_iff_phrase [OF src] run show ?thesis by simp
qed

subsection \<open>C7: line numbers\<close>

text \<open>
  C7. The line number of each Link Record is the 1-based position of its line in the
  file, blank lines counted: \<open>(n, u)\<close> is a Link Record exactly when line \<open>n\<close>
  exists, is not blank and strips to \<open>u\<close>; the records are in file order; a blank
  line has no record; and the failures a run of the loop records carry the line numbers
  and URLs of Link Records, in file order.
\<close>

theorem link_line_numbers:
  "((n, u) \<in> set (links_of raw_lines) \<longleftrightarrow>
      1 \<le> n \<and> n \<le> length raw_lines \<and> u = strip (raw_lines ! (n - 1)) \<and> u \<noteq> []) \<and>
   sorted_wrt (<) (map fst (links_of raw_lines)) \<and>
   (i < length raw_lines \<and> strip (raw_lines ! i) = [] \<longrightarrow>
      i + 1 \<notin> fst ` set (links_of raw_lines)) \<and>
   (run_links e main_handle (links_of raw_lines) s = (r, s') \<longrightarrow>
      (\<exists>fs. failed_links s' = failed_links s @ fs \<and>
            subseq (map failure_link fs) (links_of raw_lines)))"
proof (intro conjI impI)
  show "(n, u) \<in> set (links_of raw_lines) \<longleftrightarrow>
      1 \<le> n \<and> n \<le> length raw_lines \<and> u = strip (raw_lines ! (n - 1)) \<and> u \<noteq> []"
    by (rule links_of_iff)
  show "sorted_wrt (<) (map fst (links_of raw_lines))"
    by (rule sorted_links_of)
  show "i + 1 \<notin> fst ` set (links_of raw_lines)"
    if "i < length raw_lines \<and> strip (raw_lines ! i) = []"
  proof
    assume "i + 1 \<in> fst ` set (links_of raw_lines)"
    then obtain v where "(i + 1, v) \<in> set (links_of raw_lines)" by force
    then have "strip (raw_lines ! i) \<noteq> []" by (auto simp: links_of_iff)
    with that show False by simp
  qed
  show "\<exists>fs. failed_links s' = failed_links s @ fs \<and>
            subseq (map failure_link fs) (links_of raw_lines)"
    if "run_links e main_handle (links_of raw_lines) s = (r, s')"
    using link_loop_failures [of e main_handle "length (links_of raw_lines)"
        "enumerate 1 (links_of raw_lines)" s r s'] that
    by (simp add: run_links_def map_snd_enumerate)
qed

theorem link_line_numbers_witness:
  "(3, ''https://mf.example/gone'') \<in> set (links_of ex_lines) \<and>
   2 \<notin> fst ` set (links_of ex_lines) \<and>
   failed_links (snd (run_links ex_env ''main'' (links_of ex_lines) (ex_session [Typed [], Typed [], Typed []]))) =
     [(3, ''https://mf.example/gone'', ''MediaFire reports file as invalid or deleted''),
      (5, ''https://mf.example/bare'', ''Download button not found on page'')]"
proof -
  have links: "links_of ex_lines =
      [(1, ''https://mf.example/ok''), (3, ''https://mf.example/gone''),
       (5, ''https://mf.example/bare'')]"
    by (simp add: links_of_def ex_lines_def strip_def isspace_def enumerate_eq_zip upt_rec)
  have 1: "(3, ''https://mf.example/gone'') \<in> set (links_of ex_lines)" by (simp add: links)
  have blank: "1 < length ex_lines \<and> strip (ex_lines ! 1) = []"
    by (simp add: ex_lines_def strip_def isspace_def)
  from link_line_numbers [of 3 "''https://mf.example/gone''" ex_lines 1 ex_env "''main''"
      "ex_session [Typed [], Typed [], Typed []]"] blank
  have 2: "2 \<notin> fst ` set (links_of ex_lines)" by (simp add: numeral_2_eq_2)
  have 3: "failed_links (snd (run_links ex_env ''main'' (links_of ex_lines) (ex_session [Typed [], Typed [], Typed []]))) =
     [(3, ''https://mf.example/gone'', ''MediaFire reports file as invalid or deleted''),
      (5, ''https://mf.example/bare'', ''Download button not found on page'')]"
    by code_simp
  from 1 2 3 show ?thesis by simp
qed

subsection \<open>C10: blank lines and stripped URLs\<close>

text \<open>
  C10. A line of whitespace only is treated as an empty line and gives no Link Record.
  The URL of a Link Record is its line without the whitespace at both ends (the line
  terminator included): the line is whitespace, the URL, whitespace, and the URL neither
  starts nor ends with whitespace. Every URL the loop hands to \<open>driver.get\<close> is the URL
  of a Link Record, so it has no whitespace around it.
\<close>

theorem link_urls_stripped:
  "((n, u) \<in> set (links_of raw_lines) \<longrightarrow>
      (\<exists>pre post. raw_lines ! (n - 1) = pre @ u @ post \<and>
         (\<forall>c\<in>set pre. isspace c) \<and> (\<forall>c\<in>set post. isspace c)) \<and>
      u \<noteq> [] \<and> \<not> isspace (hd u) \<and> \<not> isspace (last u)) \<and>
   (i < length raw_lines \<and> (\<forall>c\<in>set (raw_lines ! i). isspace c) \<longrightarrow>
      i + 1 \<notin> fst ` set (links_of raw_lines)) \<and>
   (run_links e main_handle (links_of raw_lines) s = (r, s') \<longrightarrow>
      (\<forall>url. Get url \<in> set (new_calls (drv s) (drv s')) \<longrightarrow>
         url \<in> snd ` set (links_of raw_lines) \<and>
         url \<noteq> [] \<and> \<not> isspace (hd url) \<and> \<not> isspace (last url)))"
proof (intro conjI impI allI)
  have link: "u \<noteq> [] \<and> \<not> isspace (hd u) \<and> \<not> isspace (last u)"
    if "(n, u) \<in> set (links_of raw_lines)" for n u
    using that strip_ends [of "raw_lines ! (n - 1)"] by (auto simp: links_of_iff)
  {
    assume m: "(n, u) \<in> set (links_of raw_lines)"
    from link [OF m] show "u \<noteq> []" "\<not> isspace (hd u)" "\<not> isspace (last u)" by blast+
    from m have "u = strip (raw_lines ! (n - 1))" by (simp add: links_of_iff)
    with strip_decomp [of "raw_lines ! (n - 1)"]
    show "\<exists>pre post. raw_lines ! (n - 1) = pre @ u @ post \<and>
         (\<forall>c\<in>set pre. isspace c) \<and> (\<forall>c\<in>set post. isspace c)"
      by simp
  }
  {
    assume b: "i < length raw_lines \<and> (\<forall>c\<in>set (raw_lines ! i). isspace c)"
    show "i + 1 \<notin> fst ` set (links_of raw_lines)"
    proof
      assume "i + 1 \<in> fst ` set (links_of raw_lines)"
      then obtain v where "(i + 1, v) \<in> set (links_of raw_lines)" by force
      then have "strip (raw_lines ! i) \<noteq> []" by (auto simp: links_of_iff)
      with b show False by (simp add: strip_empty_iff)
    qed
  }
  {
    fix url
    assume run: "run_links e main_handle (links_of raw_lines) s = (r, s')"
      and g: "Get url \<in> set (new_calls (drv s) (drv s'))"
    let ?items = "enumerate 1 (links_of raw_lines)"
    have "extends (loop_call (set (map (snd \<circ> snd) ?items)) main_handle) (drv s) (drv s')"
      using run by (intro link_loop_extends [of e main_handle "length (links_of raw_lines)"])
        (simp add: run_links_def)
    from new_calls_all [OF this g] have "url \<in> set (map (snd \<circ> snd) ?items)" by simp
    moreover have "map (snd \<circ> snd) ?items = map snd (map snd ?items)"
      by (simp only: map_map)
    moreover have "map snd ?items = links_of raw_lines" by (rule map_snd_enumerate)
    ultimately have "url \<in> set (map snd (links_of raw_lines))" by (simp only:)
    then show u: "url \<in> snd ` set (links_of raw_lines)" by simp
    then obtain k where "(k, url) \<in> set (links_of raw_lines)" by force
    from link [OF this] show "url \<noteq> []" "\<not> isspace (hd url)" "\<not> isspace (last url)" by blast+
  }
qed

theorem link_urls_stripped_witness:
  "ex_lines ! 2 = ''  https://mf.example/gone  '' @ [CHR 0x0A] \<and>
   (3, ''https://mf.example/gone'') \<in> set (links_of ex_lines) \<and>
   \<not> isspace (hd ''https://mf.example/gone'') \<and>
   \<not> isspace (last ''https://mf.example/gone'') \<and>
   4 \<notin> fst ` set (links_of ex_lines) \<and>
   Get ''https://mf.example/gone'' \<in>
     set (new_calls ex_driver
       (drv (snd (run_links ex_env ''main'' (links_of ex_lines)
          (ex_session [Typed [], Typed [], Typed []])))))"
proof -
  have links: "links_of ex_lines =
      [(1, ''https://mf.example/ok''), (3, ''https://mf.example/gone''),
       (5, ''https://mf.example/bare'')]"
    by (simp add: links_of_def ex_lines_def strip_def isspace_def enumerate_eq_zip upt_rec)
  have m: "(3, ''https://mf.example/gone'') \<in> set (links_of ex_lines)" by (simp add: links)
  have b: "3 < length ex_lines \<and> (\<forall>c\<in>set (ex_lines ! 3). isspace c)"
    by (simp add: ex_lines_def isspace_def)
  have g: "Get ''https://mf.example/gone'' \<in>
     set (new_calls ex_driver
       (drv (snd (run_links ex_env ''main'' (links_of ex_lines)
          (ex_session [Typed [], Typed [], Typed []])))))"
    by code_simp
  have l: "ex_lines ! 2 = ''  https://mf.example/gone  '' @ [CHR 0x0A]"
    by (simp add: ex_lines_def)
  from link_urls_stripped [of 3 "''https://mf.example/gone''" ex_lines 3] m b l g
  show ?thesis by simp
qed

subsection \<open>C5: the ordered selector search\<close>




subsection \<open>C9: closing the popup tabs\<close>

text \<open>
  C9, as the code has it. \<open>close_popup_tabs\<close> never closes the window it is told to
  keep. When listing the window handles succeeds and every exception the driver raises
  on switching to a window or closing one is a \<open>WebDriverException\<close>, it returns
  without raising, whatever the open windows are: each such exception is swallowed and
  the remaining windows are still dealt with, the windows left open are the kept one
  and those the driver failed to switch to or to close, and the focus is on the kept
  window when it is open and the driver can switch to it. Whatever
  \<open>close_popup_tabs\<close> does raise is the exception of listing the handles or is not a
  \<open>WebDriverException\<close>.
\<close>

theorem close_popup_tabs_swallows_driver_errors:
  "(keep_handle \<in> set (handles d) \<longrightarrow>
      keep_handle \<in> set (handles (snd (close_popup_tabs e keep_handle d)))) \<and>
   CloseWindow keep_handle \<notin> set (new_calls d (snd (close_popup_tabs e keep_handle d))) \<and>
   (fst (close_popup_tabs e keep_handle d) = Some x \<longrightarrow>
      handles_err e = Some x \<or> \<not> is_WebDriverException x) \<and>
   (handles_err e = None \<and>
    (\<forall>h y. switch_err e h = Some y \<longrightarrow> is_WebDriverException y) \<and>
    (\<forall>h y. close_err e h = Some y \<longrightarrow> is_WebDriverException y) \<longrightarrow>
      fst (close_popup_tabs e keep_handle d) = None \<and>
      handles (snd (close_popup_tabs e keep_handle d)) =
        filter (stays e keep_handle) (handles d) \<and>
      (switch_err e keep_handle = None \<and> keep_handle \<in> set (handles d) \<longrightarrow>
         focus (snd (close_popup_tabs e keep_handle d)) = keep_handle))"
proof (intro conjI impI)
  show "keep_handle \<in> set (handles (snd (close_popup_tabs e keep_handle d)))"
    if "keep_handle \<in> set (handles d)"
    using that by (rule close_popup_tabs_keeps)
  show "CloseWindow keep_handle \<notin> set (new_calls d (snd (close_popup_tabs e keep_handle d)))"
    using close_popup_tabs_extends [of keep_handle d e] by (rule new_calls_none) simp
  show "handles_err e = Some x \<or> \<not> is_WebDriverException x"
    if "fst (close_popup_tabs e keep_handle d) = Some x"
    using that by (rule close_popup_tabs_raises)
next
  assume a: "handles_err e = None \<and>
    (\<forall>h y. switch_err e h = Some y \<longrightarrow> is_WebDriverException y) \<and>
    (\<forall>h y. close_err e h = Some y \<longrightarrow> is_WebDriverException y)"
  show "fst (close_popup_tabs e keep_handle d) = None"
    using a by (intro close_popup_tabs_swallows(1)) blast+
  show "handles (snd (close_popup_tabs e keep_handle d)) = filter (stays e keep_handle) (handles d)"
    using a by (intro close_popup_tabs_swallows(2)) blast+
  show "focus (snd (close_popup_tabs e keep_handle d)) = keep_handle"
    if "switch_err e keep_handle = None \<and> keep_handle \<in> set (handles d)"
    using a that by (intro close_popup_tabs_swallows(3)) blast+
qed

theorem close_popup_tabs_swallows_driver_errors_witness:
  "fst (close_popup_tabs ex_env ''main'' ex_popups) = None \<and>
   handles (snd (close_popup_tabs ex_env ''main'' ex_popups)) = [''main'', ''ad2'', ''ad3''] \<and>
   focus (snd (close_popup_tabs ex_env ''main'' ex_popups)) = ''main''"
proof -
  have hyp: "handles_err ex_env = None \<and>
    (\<forall>h y. switch_err ex_env h = Some y \<longrightarrow> is_WebDriverException y) \<and>
    (\<forall>h y. close_err ex_env h = Some y \<longrightarrow> is_WebDriverException y)"
    by (simp add: ex_env_def)
  have keep: "switch_err ex_env ''main'' = None \<and> ''main'' \<in> set (handles ex_popups)"
    by (simp add: ex_env_def ex_popups_def ex_driver_def)
  have left: "filter (stays ex_env ''main'') (handles ex_popups) = [''main'', ''ad2'', ''ad3'']"
    by (simp add: stays_def ex_env_def ex_popups_def ex_driver_def)
  from close_popup_tabs_swallows_driver_errors [of "''main''" ex_popups ex_env] hyp keep left
  show ?thesis by simp
qed

theorem close_popup_tabs_raises_counterexample:
  "fst (close_popup_tabs ex_env_interrupt ''main'' ex_popups) = Some KeyboardInterrupt \<and>
   fst (close_popup_tabs ex_env_gone ''main'' ex_popups) =
     Some (WebDriverException ''invalid session id'' ''Message: invalid session id'')"
  by code_simp

subsection \<open>C2: a page flagged invalid\<close>

text \<open>
  C2, as the code has it. For every link whose page is flagged invalid after the
  navigation and the popup cleanup, \<open>process_link\<close> returns failure with the reason
  "MediaFire reports file as invalid or deleted" and does nothing more for that link:
  between its start and its return the driver is asked for no wait on the download
  control, no element lookup, no visibility check and no click.
\<close>

theorem process_link_invalid_page:
  "driver_get e url d = (None, d1) \<Longrightarrow>
   close_popup_tabs e main_handle d1 = (None, d2) \<Longrightarrow>
   is_page_invalid d2 = (Inr True, d3) \<Longrightarrow>
     process_link e url main_handle d =
       (Inr (False, ''MediaFire reports file as invalid or deleted''), d3) \<and>
     calls d3 = calls d @ new_calls d d3 \<and>
     length (filter control_call (new_calls d d3)) = 0"
proof -
  assume g: "driver_get e url d = (None, d1)"
    and c: "close_popup_tabs e main_handle d1 = (None, d2)"
    and i: "is_page_invalid d2 = (Inr True, d3)"
  from process_link_invalid(2) [OF g c i]
  have "calls d3 = calls d @ new_calls d d3 \<and> list_all (\<lambda>c. \<not> control_call c) (new_calls d d3)"
    by (rule extends_new_calls)
  then have "calls d3 = calls d @ new_calls d d3 \<and> filter control_call (new_calls d d3) = []"
    by (simp add: list_all_iff filter_empty_conv)
  with process_link_invalid(1) [OF g c i] show ?thesis by simp
qed

theorem process_link_invalid_page_witness:
  "process_link ex_env ''https://mf.example/gone'' ''main'' ex_driver =
     (Inr (False, ''MediaFire reports file as invalid or deleted''),
      snd (is_page_invalid (snd (close_popup_tabs ex_env ''main''
        (snd (driver_get ex_env ''https://mf.example/gone'' ex_driver)))))) \<and>
   filter control_call
     (new_calls ex_driver
        (snd (is_page_invalid (snd (close_popup_tabs ex_env ''main''
          (snd (driver_get ex_env ''https://mf.example/gone'' ex_driver))))))) = []"
proof -
  let ?d1 = "snd (driver_get ex_env ''https://mf.example/gone'' ex_driver)"
  let ?d2 = "snd (close_popup_tabs ex_env ''main'' ?d1)"
  let ?d3 = "snd (is_page_invalid ?d2)"
  have "fst (driver_get ex_env ''https://mf.example/gone'' ex_driver) = None" by code_simp
  then have g: "driver_get ex_env ''https://mf.example/gone'' ex_driver = (None, ?d1)"
    by (simp add: prod_eq_iff)
  have "fst (close_popup_tabs ex_env ''main'' ?d1) = None" by code_simp
  then have c: "close_popup_tabs ex_env ''main'' ?d1 = (None, ?d2)"
    by (simp add: prod_eq_iff)
  have "fst (is_page_invalid ?d2) = Inr True" by code_simp
  then have i: "is_page_invalid ?d2 = (Inr True, ?d3)"
    by (simp add: prod_eq_iff)
  from process_link_invalid_page [OF g c i] show ?thesis by simp
qed

theorem process_link_invalid_reason_counterexample:
  "fst (is_page_invalid (snd (close_popup_tabs ex_env ''main''
      (snd (driver_get ex_env ''https://mf.example/gone'' ex_driver))))) = Inr True \<and>
   fst (process_link ex_env ''https://mf.example/gone'' ''main'' ex_driver) =
     Inr (False, ''MediaFire reports file as invalid or deleted'') \<and>
   fst (process_link ex_env ''https://mf.example/gone'' ''main'' ex_driver) \<noteq>
     Inr (False, ''file reported invalid or deleted'')"
  by code_simp

subsection \<open>C3: no visible download button\<close>

text \<open>
  C3, as the code has it. For every link on whose page no configured selector resolves
  to a displayed element, \<open>process_link\<close> clicks nothing and does not report success.
  When the control search is reached (the popup cleanup raises nothing, the page source
  is read and holds none of the invalid-page phrases, and the wait for the first
  selector ends or times out), \<open>process_link\<close> returns failure with the reason
  "Download button not found on page" if every selector comes to nothing (no element, or
  an element that is not displayed), and otherwise raises the exception, other than
  \<open>NoSuchElementException\<close>, that the first selector not coming to nothing raised in
  its lookup or visibility check; it returns no outcome then.
\<close>

theorem process_link_no_visible_button:
  "web e url = Inr p \<Longrightarrow>
   \<forall>selector\<in>set DOWNLOAD_BUTTON_SELECTORS. \<not> is_Visible (probe p selector) \<Longrightarrow>
     length (filter click_call (new_calls d (snd (process_link e url main_handle d)))) = 0 \<and>
     fst (process_link e url main_handle d) \<noteq> Inr (True, reason) \<and>
     (handles_err e = None \<and>
      (\<forall>h y. switch_err e h = Some y \<longrightarrow> is_WebDriverException y) \<and>
      (\<forall>h y. close_err e h = Some y \<longrightarrow> is_WebDriverException y) \<and>
      source p = Inr text \<and>
      \<not> (\<exists>phrase\<in>set INVALID_PAGE_TEXTS. occurs_ci phrase text) \<and>
      (wait_primary p = None \<or> (\<exists>m s. wait_primary p = Some (TimeoutException m s))) \<longrightarrow>
        ((\<forall>selector\<in>set DOWNLOAD_BUTTON_SELECTORS. probe p selector = Miss) \<longrightarrow>
           fst (process_link e url main_handle d) =
             Inr (False, ''Download button not found on page'')) \<and>
        ((\<exists>pre selector post.
            DOWNLOAD_BUTTON_SELECTORS = pre @ selector # post \<and>
            (\<forall>earlier\<in>set pre. probe p earlier = Miss) \<and>
            probe p selector = Raised x) \<longrightarrow>
           fst (process_link e url main_handle d) = Inl x) \<and>
        (fst (process_link e url main_handle d) =
           Inr (False, ''Download button not found on page'') \<or>
         (\<exists>y. fst (process_link e url main_handle d) = Inl y)))"
proof -
  assume web: "web e url = Inr p"
    and nv: "\<forall>selector\<in>set DOWNLOAD_BUTTON_SELECTORS. \<not> is_Visible (probe p selector)"
  from process_link_not_visible(1) [OF web nv]
  have "list_all (\<lambda>c. \<not> click_call c) (new_calls d (snd (process_link e url main_handle d)))"
    by (blast dest: extends_new_calls)
  then have 1: "filter click_call (new_calls d (snd (process_link e url main_handle d))) = []"
    by (simp add: list_all_iff filter_empty_conv)
  have 2: "fst (process_link e url main_handle d) \<noteq> Inr (True, reason)"
    using web nv by (rule process_link_not_visible(2))
  have 3: "((\<forall>selector\<in>set DOWNLOAD_BUTTON_SELECTORS. probe p selector = Miss) \<longrightarrow>
           fst (process_link e url main_handle d) =
             Inr (False, ''Download button not found on page'')) \<and>
        ((\<exists>pre selector post.
            DOWNLOAD_BUTTON_SELECTORS = pre @ selector # post \<and>
            (\<forall>earlier\<in>set pre. probe p earlier = Miss) \<and>
            probe p selector = Raised x) \<longrightarrow>
           fst (process_link e url main_handle d) = Inl x) \<and>
        (fst (process_link e url main_handle d) =
           Inr (False, ''Download button not found on page'') \<or>
         (\<exists>y. fst (process_link e url main_handle d) = Inl y))"
    if reached: "handles_err e = None \<and>
      (\<forall>h y. switch_err e h = Some y \<longrightarrow> is_WebDriverException y) \<and>
      (\<forall>h y. close_err e h = Some y \<longrightarrow> is_WebDriverException y) \<and>
      source p = Inr text \<and>
      \<not> (\<exists>phrase\<in>set INVALID_PAGE_TEXTS. occurs_ci phrase text) \<and>
      (wait_primary p = None \<or> (\<exists>m s. wait_primary p = Some (TimeoutException m s)))"
  proof -
    have res: "fst (process_link e url main_handle d) =
           (case first_probe p DOWNLOAD_BUTTON_SELECTORS of
              Inl x \<Rightarrow> Inl x
            | Inr b \<Rightarrow> Inr (False, ''Download button not found on page''))"
      using web nv reached by (intro process_link_not_visible(3) [of e url p "text"]) blast+
    have a: "fst (process_link e url main_handle d) =
             Inr (False, ''Download button not found on page'')"
      if "\<forall>selector\<in>set DOWNLOAD_BUTTON_SELECTORS. probe p selector = Miss"
      using that res first_probe_None_iff [of p DOWNLOAD_BUTTON_SELECTORS] by simp
    have b: "fst (process_link e url main_handle d) = Inl x"
      if "\<exists>pre selector post.
            DOWNLOAD_BUTTON_SELECTORS = pre @ selector # post \<and>
            (\<forall>earlier\<in>set pre. probe p earlier = Miss) \<and>
            probe p selector = Raised x"
      using that res first_probe_Raised_iff [of p DOWNLOAD_BUTTON_SELECTORS x] by simp
    have c: "fst (process_link e url main_handle d) =
           Inr (False, ''Download button not found on page'') \<or>
         (\<exists>y. fst (process_link e url main_handle d) = Inl y)"
      using res by (cases "first_probe p DOWNLOAD_BUTTON_SELECTORS") simp_all
    from a b c show ?thesis by blast
  qed
  from 1 2 3 show ?thesis by simp
qed

theorem process_link_no_visible_button_witness:
  "list_all (\<lambda>selector. probe ex_bare_page selector = Miss) DOWNLOAD_BUTTON_SELECTORS \<and>
   filter click_call
     (new_calls ex_driver (snd (process_link ex_env ''https://mf.example/bare'' ''main'' ex_driver))) = [] \<and>
   fst (process_link ex_env ''https://mf.example/bare'' ''main'' ex_driver) =
     Inr (False, ''Download button not found on page'')"
proof -
  have web: "web ex_env ''https://mf.example/bare'' = Inr ex_bare_page"
    by (simp add: ex_env_def)
  have miss: "\<forall>selector\<in>set DOWNLOAD_BUTTON_SELECTORS. probe ex_bare_page selector = Miss"
    by (simp add: probe_def ex_bare_page_def ex_button_page_def DOWNLOAD_BUTTON_SELECTORS_def)
  then have nv: "\<forall>selector\<in>set DOWNLOAD_BUTTON_SELECTORS. \<not> is_Visible (probe ex_bare_page selector)"
    by simp
  have low: "lower ''<html><p>Welcome</p></html>'' = ''<html><p>welcome</p></html>''"
    by code_simp
  have "\<not> (\<exists>phrase\<in>set INVALID_PAGE_TEXTS. str_in phrase (lower ''<html><p>Welcome</p></html>''))"
    unfolding low by (simp add: INVALID_PAGE_TEXTS_def)
  then have valid: "\<not> (\<exists>phrase\<in>set INVALID_PAGE_TEXTS. occurs_ci phrase ''<html><p>Welcome</p></html>'')"
    by (simp add: str_in_lower_iff INVALID_PAGE_TEXTS_lower cong: bex_cong)
  have rest: "handles_err ex_env = None \<and>
      (\<forall>h y. switch_err ex_env h = Some y \<longrightarrow> is_WebDriverException y) \<and>
      (\<forall>h y. close_err ex_env h = Some y \<longrightarrow> is_WebDriverException y) \<and>
      source ex_bare_page = Inr ''<html><p>Welcome</p></html>'' \<and>
      (wait_primary ex_bare_page = None \<or>
       (\<exists>m s. wait_primary ex_bare_page = Some (TimeoutException m s)))"
    by (simp add: ex_env_def ex_bare_page_def ex_button_page_def)
  from process_link_no_visible_button [OF web nv, of ex_driver "''main''" "''OK''"
      "''<html><p>Welcome</p></html>''"] valid rest miss
  show ?thesis by (simp add: list_all_iff)
qed

theorem process_link_not_found_reason_counterexample:
  "list_all (\<lambda>selector. probe ex_bare_page selector = Miss) DOWNLOAD_BUTTON_SELECTORS \<and>
   fst (process_link ex_env ''https://mf.example/bare'' ''main'' ex_driver) =
     Inr (False, ''Download button not found on page'') \<and>
   fst (process_link ex_env ''https://mf.example/bare'' ''main'' ex_driver) \<noteq>
     Inr (False, ''download control not found'') \<and>
   list_all (\<lambda>selector. \<not> is_Visible (probe ex_stale_page selector)) DOWNLOAD_BUTTON_SELECTORS \<and>
   fst (process_link ex_env ''https://mf.example/stale'' ''main'' ex_driver) =
     Inl (WebDriverException ''stale element reference'' ''Message: stale element reference'')"
  by code_simp

subsection \<open>C1: how many outcomes a run records\<close>

text \<open>
  C1, as the code has it. Starting from no outcomes, when the per-link loop runs to its
  end the outcomes recorded (successes counted plus failures listed) are as many as the
  non-blank lines of the file. When an exception ends the loop early, the last link
  started is number \<open>idx\<close> and the outcomes are \<open>idx - 1\<close> if the exception came
  while that link was processed, \<open>idx\<close> if it came at the prompt that follows its
  outcome. In both cases they are at most the non-blank lines, and they are as many as
  the non-blank lines exactly when the run stopped at the prompt of the last link. The
  summary reports this number as the links processed, and the number of non-blank lines
  as the total.
\<close>

theorem outcomes_match_links_processed:
  "run_links e main_handle (links_of raw_lines) s = (r, s') \<Longrightarrow> outcome_count s = 0 \<Longrightarrow>
     (r = None \<longrightarrow>
        outcome_count s' = length (filter (\<lambda>line. strip line \<noteq> []) raw_lines)) \<and>
     (r \<noteq> None \<longrightarrow>
        1 \<le> idx s' \<and> idx s' \<le> length (filter (\<lambda>line. strip line \<noteq> []) raw_lines) \<and>
        outcome_count s' = idx s' - 1 + (if at_prompt (stdout (con s')) then 1 else 0)) \<and>
     (r \<noteq> None \<longrightarrow>
        (outcome_count s' = length (filter (\<lambda>line. strip line \<noteq> []) raw_lines) \<longleftrightarrow>
           idx s' = length (filter (\<lambda>line. strip line \<noteq> []) raw_lines) \<and>
           at_prompt (stdout (con s')))) \<and>
     outcome_count s' \<le> length (filter (\<lambda>line. strip line \<noteq> []) raw_lines) \<and>
     (summary (finish e path (length (links_of raw_lines)) s') = Some rep \<longrightarrow>
        processed rep = outcome_count s' \<and>
        processed rep = successful rep + failed_count rep \<and>
        total rep = length (filter (\<lambda>line. strip line \<noteq> []) raw_lines))"
proof -
  assume run: "run_links e main_handle (links_of raw_lines) s = (r, s')"
    and zero: "outcome_count s = 0"
  have "summary (finish e path (length (links_of raw_lines)) s') = Some rep \<longrightarrow>
        processed rep = outcome_count s' \<and>
        processed rep = successful rep + failed_count rep \<and>
        total rep = length (filter (\<lambda>line. strip line \<noteq> []) raw_lines)"
    by (auto dest!: finish_summary simp: length_links_of)
  moreover have "r \<noteq> None \<longrightarrow>
        (outcome_count s' = length (filter (\<lambda>line. strip line \<noteq> []) raw_lines) \<longleftrightarrow>
           idx s' = length (filter (\<lambda>line. strip line \<noteq> []) raw_lines) \<and>
           at_prompt (stdout (con s')))"
    using run_links_count(2) [OF run zero] by (auto split: if_splits)
  ultimately show ?thesis using run_links_count [OF run zero] by blast
qed

theorem outcomes_match_links_processed_witness:
  "outcome_count (snd (run_links ex_env ''main'' (links_of ex_lines)
      (ex_session [Typed [], Typed [], Typed []]))) = 3 \<and>
   length (filter (\<lambda>line. strip line \<noteq> []) ex_lines) = 3 \<and>
   fst (run_links ex_env ''main'' (links_of ex_lines) (ex_session [Typed [], CtrlC])) =
     Some KeyboardInterrupt \<and>
   idx (snd (run_links ex_env ''main'' (links_of ex_lines) (ex_session [Typed [], CtrlC]))) = 2 \<and>
   outcome_count (snd (run_links ex_env ''main'' (links_of ex_lines)
      (ex_session [Typed [], CtrlC]))) = 2 \<and>
   fst (run_links ex_env ''main'' (links_of ex_lines) (ex_session [Typed [], Typed [], CtrlC])) =
     Some KeyboardInterrupt \<and>
   outcome_count (snd (run_links ex_env ''main'' (links_of ex_lines)
      (ex_session [Typed [], Typed [], CtrlC]))) = 3"
proof -
  let ?last = "run_links ex_env ''main'' (links_of ex_lines) (ex_session [Typed [], Typed [], CtrlC])"
  have l: "fst ?last = Some KeyboardInterrupt" "idx (snd ?last) = 3"
    "at_prompt (stdout (con (snd ?last)))"
    by code_simp+
  have rl: "run_links ex_env ''main'' (links_of ex_lines) (ex_session [Typed [], Typed [], CtrlC]) =
      (fst ?last, snd ?last)" by simp
  let ?full = "run_links ex_env ''main'' (links_of ex_lines) (ex_session [Typed [], Typed [], Typed []])"
  let ?cut = "run_links ex_env ''main'' (links_of ex_lines) (ex_session [Typed [], CtrlC])"
  have n: "length (filter (\<lambda>line. strip line \<noteq> []) ex_lines) = 3"
    by (simp add: ex_lines_def strip_def isspace_def)
  have z: "outcome_count (ex_session events) = 0" for events
    by (simp add: outcome_count_def ex_session_def)
  have f: "fst ?full = None" by code_simp
  have c: "fst ?cut = Some KeyboardInterrupt" "idx (snd ?cut) = 2"
    "at_prompt (stdout (con (snd ?cut)))"
    by code_simp+
  have rf: "run_links ex_env ''main'' (links_of ex_lines) (ex_session [Typed [], Typed [], Typed []]) =
      (fst ?full, snd ?full)" by simp
  have rc: "run_links ex_env ''main'' (links_of ex_lines) (ex_session [Typed [], CtrlC]) =
      (fst ?cut, snd ?cut)" by simp
  from outcomes_match_links_processed [OF rf z] f n
  have 1: "outcome_count (snd ?full) = 3" by simp
  from outcomes_match_links_processed [OF rc z] c
  have 2: "outcome_count (snd ?cut) = 2" by simp
  from outcomes_match_links_processed [OF rl z] l n
  have 3: "outcome_count (snd ?last) = 3" by simp
  from 1 2 3 n c l show ?thesis by simp
qed

theorem outcomes_interrupted_counterexample:
  "map_option total (summary (main ex_env (Some ''links.txt'') [CtrlC, Typed ''y''])) = Some 3 \<and>
   map_option processed (summary (main ex_env (Some ''links.txt'') [CtrlC, Typed ''y''])) = Some 1 \<and>
   length (filter (\<lambda>line. strip line \<noteq> []) ex_lines) = 3"
  by code_simp

subsection \<open>C4: the shutdown prompt\<close>

text \<open>
  C4. The shutdown prompt ends only on an affirmative answer, which is \<open>y\<close> or \<open>Y\<close>
  with any whitespace around it. On any other line, the empty one included, it writes
  its reply and asks again; \<open>driver.quit()\<close> is called only after the prompt has
  ended on an affirmative answer, all lines typed before it at this prompt being not
  affirmative; and in a whole run of \<open>main\<close> the browser is quit only if some line the
  operator typed is affirmative.
\<close>

theorem shutdown_prompt_needs_yes:
  "(affirmative line \<longleftrightarrow>
      (\<exists>pre c post. line = pre @ c # post \<and> (c = CHR ''y'' \<or> c = CHR ''Y'') \<and>
         (\<forall>a\<in>set pre. isspace a) \<and> (\<forall>a\<in>set post. isspace a))) \<and>
   (affirmative line \<longrightarrow>
      shutdown_prompt (Typed line # rest) out =
        (None, \<lparr>stdin = rest, stdout = out @ [PromptFinish]\<rparr>)) \<and>
   (\<not> affirmative line \<longrightarrow>
      shutdown_prompt (Typed line # rest) out =
        shutdown_prompt rest
          (out @ [PromptFinish,
                  if lower (strip line) = ''n'' \<or> lower (strip line) = [] then StillWaiting
                  else PleaseType])) \<and>
   (fst (shutdown_prompt events out) = None \<longleftrightarrow>
      (\<exists>before answer after. events = map Typed before @ Typed answer # after \<and>
         (\<forall>l\<in>set before. \<not> affirmative l) \<and> affirmative answer)) \<and>
   (Quit \<notin> set (calls (drv s)) \<longrightarrow>
      (\<exists>d. browser (finish e path n s) = Some d \<and>
           (Quit \<in> set (calls d) \<longleftrightarrow>
              fst (shutdown_prompt (stdin (con s)) (stdout (con s))) = None))) \<and>
   (browser (main e arg all_events) = Some d' \<and> Quit \<in> set (calls d') \<longrightarrow>
      (\<exists>answer. Typed answer \<in> set all_events \<and> affirmative answer))"
proof (intro conjI)
  show "affirmative line \<longleftrightarrow>
      (\<exists>pre c post. line = pre @ c # post \<and> (c = CHR ''y'' \<or> c = CHR ''Y'') \<and>
         (\<forall>a\<in>set pre. isspace a) \<and> (\<forall>a\<in>set post. isspace a))"
    by (rule affirmative_iff)
  show "affirmative line \<longrightarrow>
      shutdown_prompt (Typed line # rest) out =
        (None, \<lparr>stdin = rest, stdout = out @ [PromptFinish]\<rparr>)"
    using shutdown_prompt_yes [of line rest out] by blast
  show "\<not> affirmative line \<longrightarrow>
      shutdown_prompt (Typed line # rest) out =
        shutdown_prompt rest
          (out @ [PromptFinish,
                  if lower (strip line) = ''n'' \<or> lower (strip line) = [] then StillWaiting
                  else PleaseType])"
    using shutdown_prompt_again [of line rest out] by blast
  show "fst (shutdown_prompt events out) = None \<longleftrightarrow>
      (\<exists>before answer after. events = map Typed before @ Typed answer # after \<and>
         (\<forall>l\<in>set before. \<not> affirmative l) \<and> affirmative answer)"
    by (rule shutdown_prompt_None_iff)
  show "Quit \<notin> set (calls (drv s)) \<longrightarrow>
      (\<exists>d. browser (finish e path n s) = Some d \<and>
           (Quit \<in> set (calls d) \<longleftrightarrow>
              fst (shutdown_prompt (stdin (con s)) (stdout (con s))) = None))"
    using finish_quit [of s e path n] by blast
  show "browser (main e arg all_events) = Some d' \<and> Quit \<in> set (calls d') \<longrightarrow>
      (\<exists>answer. Typed answer \<in> set all_events \<and> affirmative answer)"
    using main_quit [of e arg all_events d'] by blast
qed

theorem shutdown_prompt_needs_yes_witness:
  "affirmative '' Y '' \<and>
   fst (shutdown_prompt [Typed [], Typed ''no'', Typed ''yes'', Typed '' Y '', Typed ''later''] []) = None \<and>
   stdin (snd (shutdown_prompt [Typed [], Typed ''no'', Typed ''yes'', Typed '' Y '', Typed ''later''] [])) =
     [Typed ''later''] \<and>
   stdout (snd (shutdown_prompt [Typed [], Typed ''no'', Typed ''yes'', Typed '' Y '', Typed ''later''] [])) =
     [PromptFinish, StillWaiting, PromptFinish, PleaseType, PromptFinish, PleaseType, PromptFinish]"
proof -
  have y: "'' Y '' = [CHR 0x20] @ CHR ''Y'' # [CHR 0x20] \<and> (CHR ''Y'' = CHR ''y'' \<or> CHR ''Y'' = CHR ''Y'') \<and>
      (\<forall>a\<in>set [CHR 0x20]. isspace a) \<and> (\<forall>a\<in>set [CHR 0x20]. isspace a)"
    by (simp add: isspace_def)
  from shutdown_prompt_needs_yes [of "'' Y ''"] y have a: "affirmative '' Y ''" by blast
  have n1: "\<not> affirmative []" and n2: "\<not> affirmative ''no''" and n3: "\<not> affirmative ''yes''"
    by (simp_all add: affirmative_def strip_def isspace_def lower_def)
  have l1: "lower (strip []) = []" by (simp add: strip_def lower_def)
  have l2: "lower (strip ''no'') = ''no''" by code_simp
  have l3: "lower (strip ''yes'') = ''yes''" by code_simp
  have "shutdown_prompt [Typed [], Typed ''no'', Typed ''yes'', Typed '' Y '', Typed ''later''] [] =
      shutdown_prompt [Typed ''no'', Typed ''yes'', Typed '' Y '', Typed ''later'']
        [PromptFinish, StillWaiting]"
    using shutdown_prompt_needs_yes [of "[]" "[Typed ''no'', Typed ''yes'', Typed '' Y '', Typed ''later'']" "[]"] n1 l1
    by (simp del: shutdown_prompt.simps)
  also have "\<dots> = shutdown_prompt [Typed ''yes'', Typed '' Y '', Typed ''later'']
        [PromptFinish, StillWaiting, PromptFinish, PleaseType]"
    using shutdown_prompt_needs_yes [of "''no''" "[Typed ''yes'', Typed '' Y '', Typed ''later'']"
        "[PromptFinish, StillWaiting]"] n2 l2
    by (simp del: shutdown_prompt.simps)
  also have "\<dots> = shutdown_prompt [Typed '' Y '', Typed ''later'']
        [PromptFinish, StillWaiting, PromptFinish, PleaseType, PromptFinish, PleaseType]"
    using shutdown_prompt_needs_yes [of "''yes''" "[Typed '' Y '', Typed ''later'']"
        "[PromptFinish, StillWaiting, PromptFinish, PleaseType]"] n3 l3
    by (simp del: shutdown_prompt.simps)
  also have "\<dots> = (None, \<lparr>stdin = [Typed ''later''],
      stdout = [PromptFinish, StillWaiting, PromptFinish, PleaseType, PromptFinish, PleaseType,
                PromptFinish]\<rparr>)"
    using shutdown_prompt_needs_yes [of "'' Y ''" "[Typed ''later'']"
        "[PromptFinish, StillWaiting, PromptFinish, PleaseType, PromptFinish, PleaseType]"] a
    by (simp del: shutdown_prompt.simps)
  finally show ?thesis using a by simp
qed

subsection \<open>C8: exit codes\<close>

text \<open>
  C8, as the code has it. With the path resolved, the process exits with code 1 when the
  path is not an existing regular file (it is missing, or it is a directory), without
  launching a browser. For a file with no non-blank line it exits with code 0 at once,
  after the warning and without launching a browser. Otherwise the exit code is 0
  exactly when \<open>main\<close> runs to its end, which it does only with the summary written;
  an exception nobody catches (the file cannot be read, the browser does not start, a
  driver error outside the handled classes, the end of input or an interrupt at the
  shutdown prompt) ends the process with a code that is not 0.
\<close>

theorem main_exit_code:
  "links_file_of arg events = Some path \<Longrightarrow>
     (fs e path = Absent \<or> fs e path = Directory \<longrightarrow>
        ending (main e arg events) = Exited 1 \<and> browser (main e arg events) = None) \<and>
     (fs e path = RegularFile (Inr raw_lines) \<and>
      length (filter (\<lambda>line. strip line \<noteq> []) raw_lines) = 0 \<longrightarrow>
        ending (main e arg events) = Exited 0 \<and> browser (main e arg events) = None \<and>
        last (stdout (terminal (main e arg events))) = WarnNoLinks) \<and>
     (exit_code (ending (main e arg events)) = 0 \<longleftrightarrow>
        (\<exists>raw. fs e path = RegularFile (Inr raw) \<and>
           (length (filter (\<lambda>line. strip line \<noteq> []) raw) = 0 \<or>
            ending (main e arg events) = Returned))) \<and>
     (ending (main e arg events) = Returned \<longrightarrow> summary (main e arg events) \<noteq> None) \<and>
     (\<forall>x. ending (main e arg events) = Uncaught x \<longrightarrow> exit_code (ending (main e arg events)) \<noteq> 0)"
proof -
  assume res: "links_file_of arg events = Some path"
  have 1: "fs e path = Absent \<or> fs e path = Directory \<longrightarrow>
        ending (main e arg events) = Exited 1 \<and> browser (main e arg events) = None"
    using main_not_file [OF res, of e] by blast
  have 2: "fs e path = RegularFile (Inr raw_lines) \<and>
      length (filter (\<lambda>line. strip line \<noteq> []) raw_lines) = 0 \<longrightarrow>
        ending (main e arg events) = Exited 0 \<and> browser (main e arg events) = None \<and>
        last (stdout (terminal (main e arg events))) = WarnNoLinks"
    using main_no_links [OF res, of e raw_lines] by (simp add: links_of_Nil_iff)
  have 3: "exit_code (ending (main e arg events)) = 0 \<longleftrightarrow>
        (\<exists>raw. fs e path = RegularFile (Inr raw) \<and>
           (length (filter (\<lambda>line. strip line \<noteq> []) raw) = 0 \<or>
            ending (main e arg events) = Returned))"
    using main_exit_zero [OF res, of e] by (simp add: links_of_Nil_iff)
  have 4: "ending (main e arg events) = Returned \<longrightarrow> summary (main e arg events) \<noteq> None"
    using main_Returned [OF res, of e] by blast
  have 5: "\<forall>x. ending (main e arg events) = Uncaught x \<longrightarrow> exit_code (ending (main e arg events)) \<noteq> 0"
    by simp
  from 1 2 3 4 5 show ?thesis by blast
qed

theorem main_exit_code_witness:
  "ending (main ex_env (Some ''missing.txt'') []) = Exited 1 \<and>
   ending (main ex_env None [Typed '' blank.txt '']) = Exited 0 \<and>
   browser (main ex_env None [Typed '' blank.txt '']) = None \<and>
   last (stdout (terminal (main ex_env None [Typed '' blank.txt '']))) = WarnNoLinks"
proof -
  have r1: "links_file_of (Some ''missing.txt'') [] = Some ''missing.txt''"
    by (simp add: links_file_of_def)
  have r2: "links_file_of None [Typed '' blank.txt ''] = Some ''blank.txt''"
    by (simp add: links_file_of_def strip_def isspace_def)
  have f1: "fs ex_env ''missing.txt'' = Absent" by (simp add: ex_env_def)
  have f2: "fs ex_env ''blank.txt'' = RegularFile (Inr [[CHR 0x0A], [CHR 0x20, CHR 0x0A]]) \<and>
      length (filter (\<lambda>line. strip line \<noteq> []) [[CHR 0x0A], [CHR 0x20, CHR 0x0A]]) = 0"
    by (simp add: ex_env_def strip_def isspace_def)
  from main_exit_code [OF r1, of ex_env] f1
  have 1: "ending (main ex_env (Some ''missing.txt'') []) = Exited 1" by blast
  from main_exit_code [OF r2, of ex_env "[[CHR 0x0A], [CHR 0x20, CHR 0x0A]]"] f2
  have 2: "ending (main ex_env None [Typed '' blank.txt '']) = Exited 0 \<and>
   browser (main ex_env None [Typed '' blank.txt '']) = None \<and>
   last (stdout (terminal (main ex_env None [Typed '' blank.txt '']))) = WarnNoLinks"
    by blast
  from 1 2 show ?thesis by blast
qed

theorem main_exit_code_counterexample:
  "fs ex_env ''downloads'' = Directory \<and>
   exit_code (ending (main ex_env (Some ''downloads'') [])) = 1 \<and>
   fs ex_env_no_chrome ''links.txt'' = RegularFile (Inr ex_lines) \<and>
   ending (main ex_env_no_chrome (Some ''links.txt'') []) =
     Uncaught (WebDriverException ''cannot find Chrome binary'' ''Message: cannot find Chrome binary'') \<and>
   exit_code (ending (main ex_env_no_chrome (Some ''links.txt'') [])) = 1"
  by code_simp


end
